theory Spec2Isabelle
  imports Complex_Main "HOL-Library.Word"
begin

section \<open>Data model (pds.h)\<close>

text \<open>
  Samples, the trigger level and pixel intensities are \<open>uint8_t\<close>; the number of samples
  per pixel and the coordinates handed to the rasterizer are \<open>uint16_t\<close>. Both are words,
  so their ranges hold by type. Values of type \<open>size_t\<close> (32 bits on the ESP32) are
  natural numbers: indices stay below the buffer length, column numbers below the matrix
  width, the sum of a run below 256 times the number of samples per pixel, and the one
  index sum that can pass \<open>SIZE_MAX\<close> is reduced by \<open>size_t\<close>. The \<open>float\<close> values are IEEE 754 single-precision numbers, defined
  in the next section.
\<close>

type_synonym u8 = "8 word"
type_synonym u16 = "16 word"

definition MATRIX_WIDTH :: nat where
  "MATRIX_WIDTH = 800"

definition MATRIX_HEIGHT :: nat where
  "MATRIX_HEIGHT = 600"

definition SIZE_MAX :: nat where
  "SIZE_MAX = 2 ^ 32 - 1"

text \<open>Conversion of an integer result to \<open>size_t\<close> and to \<open>int16_t\<close>.\<close>

definition size_t :: "nat \<Rightarrow> nat" where
  "size_t n = n mod 2 ^ 32"

definition s16 :: "int \<Rightarrow> int" where
  "s16 v = (v + 32768) mod 65536 - 32768"

text \<open>
  What C++ leaves undefined is a fault of the model: a division by zero, a read outside
  the sample buffer, a rasterizer loop that does not return, and the conversion to an
  integer type of a float that is not a number or whose integer part the type cannot hold.
\<close>

datatype fault = DivisionByZero | OutOfBounds | NonTermination | UndefinedCast

section \<open>Single-precision arithmetic\<close>

text \<open>
  A \<open>float\<close> is an IEEE 754 binary32 value: a finite number, an infinity or NaN. The
  two zeros are one value, \<open>Finite 0\<close>: the code divides by the constant 255 only and
  negative zero does not arise from a scale above 0. A finite value is meant to be
  representable, a multiple of \<open>2 ^ (e - 23)\<close> below \<open>2 ^ (e + 1)\<close> in magnitude for
  an exponent \<open>e\<close> from -126 to 127; the operations below return such values, and the
  model accepts any real as an operand.

  The result of an operation is the exact result rounded to the nearest representable
  value, ties to the even significand. \<open>expo a\<close> is the exponent of the binade of
  \<open>a\<close>, -126 for the subnormal numbers; \<open>round_mag a\<close> rounds a magnitude to 24
  significant bits at that exponent; a rounded magnitude of \<open>2 ^ 128\<close> or more
  overflows to an infinity.
\<close>

datatype f32 = Finite real | PInf | NInf | NaN

fun expo_below :: "nat \<Rightarrow> real \<Rightarrow> int" where
  "expo_below 0 a = - 126"
| "expo_below (Suc n) a = (if 2 powi (int n - 125) \<le> a then int n - 125 else expo_below n a)"

definition expo :: "real \<Rightarrow> int" where
  "expo a = expo_below 253 a"

definition round_even :: "real \<Rightarrow> int" where
  "round_even t =
     (let f = \<lfloor>t\<rfloor>; d = t - of_int f
      in if d < 1 / 2 then f else if d > 1 / 2 then f + 1 else if even f then f else f + 1)"

definition round_mag :: "real \<Rightarrow> real" where
  "round_mag a = (let u = 2 powi (expo a - 23) in of_int (round_even (a / u)) * u)"

definition round_f32 :: "real \<Rightarrow> f32" where
  "round_f32 x =
     (let r = round_mag \<bar>x\<bar>
      in if r \<ge> 2 powi 128 then (if x > 0 then PInf else NInf) else Finite (sgn x * r))"


text \<open>
  Product and quotient. An infinity times zero and an infinity by an infinity are NaN.
  A zero divisor is taken as positive zero; the code has no such division.
\<close>

fun f32_mul :: "f32 \<Rightarrow> f32 \<Rightarrow> f32" where
  "f32_mul (Finite x) (Finite y) = round_f32 (x * y)"
| "f32_mul (Finite x) PInf = (if x = 0 then NaN else if x > 0 then PInf else NInf)"
| "f32_mul (Finite x) NInf = (if x = 0 then NaN else if x > 0 then NInf else PInf)"
| "f32_mul PInf (Finite y) = (if y = 0 then NaN else if y > 0 then PInf else NInf)"
| "f32_mul NInf (Finite y) = (if y = 0 then NaN else if y > 0 then NInf else PInf)"
| "f32_mul PInf PInf = PInf"
| "f32_mul PInf NInf = NInf"
| "f32_mul NInf PInf = NInf"
| "f32_mul NInf NInf = PInf"
| "f32_mul NaN b = NaN"
| "f32_mul a NaN = NaN"

fun f32_div :: "f32 \<Rightarrow> f32 \<Rightarrow> f32" where
  "f32_div (Finite x) (Finite y) =
     (if y = 0 then (if x = 0 then NaN else if x > 0 then PInf else NInf)
      else round_f32 (x / y))"
| "f32_div (Finite x) PInf = Finite 0"
| "f32_div (Finite x) NInf = Finite 0"
| "f32_div PInf (Finite y) = (if y \<ge> 0 then PInf else NInf)"
| "f32_div NInf (Finite y) = (if y \<ge> 0 then NInf else PInf)"
| "f32_div PInf PInf = NaN"
| "f32_div PInf NInf = NaN"
| "f32_div NInf PInf = NaN"
| "f32_div NInf NInf = NaN"
| "f32_div NaN b = NaN"
| "f32_div a NaN = NaN"

text \<open>
  The comparisons of the code are \<open>a < b\<close> and \<open>a > b\<close>, which is \<open>b < a\<close>; both are
  false when an operand is NaN.
\<close>

fun f32_less :: "f32 \<Rightarrow> f32 \<Rightarrow> bool" where
  "f32_less (Finite x) (Finite y) = (x < y)"
| "f32_less (Finite x) PInf = True"
| "f32_less NInf (Finite y) = True"
| "f32_less NInf PInf = True"
| "f32_less a b = False"

text \<open>
  The cast \<open>(uint16_t)\<close> of a float drops the fraction; it is undefined for NaN, for an
  infinity and when the integer part is not in 0..65535.
\<close>

definition f32_to_u16 :: "f32 \<Rightarrow> fault + u16" where
  "f32_to_u16 a =
     (case a of
        Finite x \<Rightarrow>
          (let t = (if x \<ge> 0 then \<lfloor>x\<rfloor> else \<lceil>x\<rceil>)
           in if 0 \<le> t \<and> t \<le> 65535 then Inr (word_of_int t) else Inl UndefinedCast)
      | _ \<Rightarrow> Inl UndefinedCast)"

section \<open>The processor object (pds.h)\<close>

datatype TriggerMode = TRIGGER_OFF | TRIGGER_RISING | TRIGGER_FALLING | TRIGGER_LEVEL

record Pds =
  triggerMode :: TriggerMode
  triggerLevel :: u8
  amplitudeScale :: f32
  samplesPerPixel :: u16
  initialized :: bool
  triggerDetected :: bool
  triggerPosition :: nat

text \<open>
  The output matrix \<open>uint8_t[MATRIX_HEIGHT][MATRIX_WIDTH]\<close> is a function from the row
  and the column to the intensity; \<open>put m x y v\<close> is the assignment \<open>matrix[y][x] = v\<close>.
  A pointer argument is an option, \<open>None\<close> being \<open>nullptr\<close>. The sample buffer and its
  length are one list: \<open>inputLength\<close> is the length of the list.
\<close>

type_synonym matrix = "nat \<Rightarrow> nat \<Rightarrow> u8"

definition put :: "matrix \<Rightarrow> nat \<Rightarrow> nat \<Rightarrow> u8 \<Rightarrow> matrix" where
  "put m x y v = m(y := (m y)(x := v))"

text \<open>A matrix whose cells all hold one value, for the examples.\<close>

definition filled :: "u8 \<Rightarrow> matrix" where
  "filled v = (\<lambda>y x. v)"

section \<open>Configuration (pds.cpp, lines 10 to 95)\<close>

definition constrainValue :: "'a::linorder \<Rightarrow> 'a \<Rightarrow> 'a \<Rightarrow> 'a" where
  "constrainValue v min_val max_val =
     (if v < min_val then min_val else if v > max_val then max_val else v)"

text \<open>The template \<open>constrainValue\<close> at type \<open>float\<close>, with the comparisons of floats.\<close>

definition constrainValue_f32 :: "f32 \<Rightarrow> f32 \<Rightarrow> f32 \<Rightarrow> f32" where
  "constrainValue_f32 v min_val max_val =
     (if f32_less v min_val then min_val else if f32_less max_val v then max_val else v)"

definition Pds_ctor :: Pds where
  "Pds_ctor = \<lparr> triggerMode = TRIGGER_OFF, triggerLevel = 128, amplitudeScale = Finite 1,
                samplesPerPixel = 1, initialized = False, triggerDetected = False,
                triggerPosition = 0 \<rparr>"

definition pds_begin :: "Pds \<Rightarrow> Pds" where
  "pds_begin p = p\<lparr>initialized := True\<rparr>"

definition setTrigger :: "Pds \<Rightarrow> TriggerMode \<Rightarrow> u8 \<Rightarrow> Pds" where
  "setTrigger p mode level = p\<lparr>triggerMode := mode, triggerLevel := level\<rparr>"

definition setAmplitudeScale :: "Pds \<Rightarrow> f32 \<Rightarrow> Pds" where
  "setAmplitudeScale p scale =
     (if f32_less (Finite 0) scale then p\<lparr>amplitudeScale := scale\<rparr> else p)"

definition setTimeScale :: "Pds \<Rightarrow> u16 \<Rightarrow> Pds" where
  "setTimeScale p spp = (if spp > 0 then p\<lparr>samplesPerPixel := spp\<rparr> else p)"

definition getTriggerStatus :: "Pds \<Rightarrow> bool" where
  "getTriggerStatus p = triggerDetected p"

definition getTriggerPosition :: "Pds \<Rightarrow> nat" where
  "getTriggerPosition p = triggerPosition p"

text \<open>The calls that change the configuration, and a sequence of them run in order.\<close>

datatype config_call =
    Begin
  | SetTrigger TriggerMode u8
  | SetAmplitudeScale f32
  | SetTimeScale u16

fun apply_call :: "config_call \<Rightarrow> Pds \<Rightarrow> Pds" where
  "apply_call Begin p = pds_begin p"
| "apply_call (SetTrigger mode level) p = setTrigger p mode level"
| "apply_call (SetAmplitudeScale scale) p = setAmplitudeScale p scale"
| "apply_call (SetTimeScale spp) p = setTimeScale p spp"

definition configure :: "config_call list \<Rightarrow> Pds" where
  "configure calls = fold apply_call calls Pds_ctor"

definition config_ok :: "Pds \<Rightarrow> bool" where
  "config_ok p = (f32_less (Finite 0) (amplitudeScale p) \<and> unat (samplesPerPixel p) \<ge> 1)"

section \<open>Trigger detector (pds.cpp, lines 200 to 238)\<close>

function findRising :: "u8 list \<Rightarrow> u8 \<Rightarrow> nat \<Rightarrow> nat" where
  "findRising data level i =
     (if i < length data then
        (if data ! (i - 1) < level \<and> data ! i \<ge> level then i
         else findRising data level (i + 1))
      else SIZE_MAX)"
  by pat_completeness auto
termination
  by (relation "measure (\<lambda>(data, level, i). length data - i)") auto

declare findRising.simps [simp del]

function findFalling :: "u8 list \<Rightarrow> u8 \<Rightarrow> nat \<Rightarrow> nat" where
  "findFalling data level i =
     (if i < length data then
        (if data ! (i - 1) \<ge> level \<and> data ! i < level then i
         else findFalling data level (i + 1))
      else SIZE_MAX)"
  by pat_completeness auto
termination
  by (relation "measure (\<lambda>(data, level, i). length data - i)") auto

declare findFalling.simps [simp del]

function findLevel :: "u8 list \<Rightarrow> u8 \<Rightarrow> nat \<Rightarrow> nat" where
  "findLevel data level i =
     (if i < length data then
        (if (data ! i \<ge> level \<and> (i = 0 \<or> data ! (i - 1) < level)) \<or>
            (data ! i < level \<and> (i = 0 \<or> data ! (i - 1) \<ge> level)) then i
         else findLevel data level (i + 1))
      else SIZE_MAX)"
  by pat_completeness auto
termination
  by (relation "measure (\<lambda>(data, level, i). length data - i)") auto

declare findLevel.simps [simp del]

definition findTrigger :: "Pds \<Rightarrow> u8 list \<Rightarrow> nat" where
  "findTrigger p data =
     (if length data < 2 then SIZE_MAX
      else case triggerMode p of
             TRIGGER_RISING \<Rightarrow> findRising data (triggerLevel p) 1
           | TRIGGER_FALLING \<Rightarrow> findFalling data (triggerLevel p) 1
           | TRIGGER_LEVEL \<Rightarrow> findLevel data (triggerLevel p) 0
           | TRIGGER_OFF \<Rightarrow> SIZE_MAX)"

section \<open>Amplitude mapper (pds.cpp, lines 249 to 260)\<close>

text \<open>
  The sample is an \<open>int\<close> below 256 and \<open>MATRIX_HEIGHT - 1\<close> is the \<open>int\<close> 599; their
  conversion to \<open>float\<close> is exact. The product, the quotient and the second product
  are each rounded. The difference is an \<open>int\<close> and is stored in a \<open>uint16_t\<close>.
\<close>

definition scaleAmplitude :: "Pds \<Rightarrow> u8 \<Rightarrow> fault + u16" where
  "scaleAmplitude p v =
     (let scaledValue = f32_mul (Finite (real (unat v))) (amplitudeScale p);
          scaledValue = constrainValue_f32 scaledValue (Finite 0) (Finite 255)
      in case f32_to_u16 (f32_mul (f32_div scaledValue (Finite 255))
                                  (Finite (real (MATRIX_HEIGHT - 1)))) of
           Inl e \<Rightarrow> Inl e
         | Inr cast \<Rightarrow>
             (let y = (word_of_int (int MATRIX_HEIGHT - 1 - uint cast) :: u16)
              in Inr (constrainValue y 0 (word_of_nat (MATRIX_HEIGHT - 1)))))"

text \<open>
  The mapping as the specification words it: the scaled sample clamped to 0..255, then
  \<open>y = round ((H-1) - (scaled / 255) * (H-1))\<close> clamped to \<open>[0, H-1]\<close>.
\<close>

definition mapY_spec :: "real \<Rightarrow> nat \<Rightarrow> int" where
  "mapY_spec scale sample =
     (let scaled = max 0 (min 255 (real sample * scale));
          h1 = real (MATRIX_HEIGHT - 1)
      in max 0 (min (int MATRIX_HEIGHT - 1) (round (h1 - (scaled / 255) * h1))))"

section \<open>Rasterizer (pds.cpp, lines 269 to 327)\<close>

definition clearMatrix :: "matrix \<Rightarrow> matrix" where
  "clearMatrix m =
     fold (\<lambda>y m. fold (\<lambda>x m. put m x y 0) [0 ..< MATRIX_WIDTH] m) [0 ..< MATRIX_HEIGHT] m"

text \<open>
  The loop of \<open>drawLine\<close>. It does not read the matrix and writes one value, so the loop
  of the model records the cells it writes, in order, and \<open>drawLine\<close> writes them. The
  locals \<open>x\<close>, \<open>y\<close>, \<open>err\<close> and \<open>e2\<close> are \<open>int16_t\<close>: every assignment goes through
  \<open>s16\<close>. The loop is \<open>while (true)\<close> with one exit, so it is a partial function.
\<close>

partial_function (option) drawLine_loop ::
  "int \<Rightarrow> int \<Rightarrow> int \<Rightarrow> int \<Rightarrow> int \<Rightarrow> int \<Rightarrow> int \<Rightarrow> int \<Rightarrow> int \<Rightarrow> (int \<times> int) list
     \<Rightarrow> (int \<times> int) list option" where
  "drawLine_loop dx dy sx sy x2 y2 x y err written =
     (let written = (if x \<ge> 0 \<and> x < int MATRIX_WIDTH \<and> y \<ge> 0 \<and> y < int MATRIX_HEIGHT
                     then written @ [(x, y)] else written)
      in if x = x2 \<and> y = y2 then Some written
         else
           let e2 = s16 (2 * err);
               err1 = (if e2 > - dy then s16 (err - dy) else err);
               x' = (if e2 > - dy then s16 (x + sx) else x);
               err2 = (if e2 < dx then s16 (err1 + dx) else err1);
               y' = (if e2 < dx then s16 (y + sy) else y)
           in drawLine_loop dx dy sx sy x2 y2 x' y' err2 written)"

declare drawLine_loop.simps [code]

definition drawLine_cells :: "u16 \<Rightarrow> u16 \<Rightarrow> u16 \<Rightarrow> u16 \<Rightarrow> (int \<times> int) list option" where
  "drawLine_cells x1 y1 x2 y2 =
     (if unat x1 \<ge> MATRIX_WIDTH \<or> unat x2 \<ge> MATRIX_WIDTH \<or>
         unat y1 \<ge> MATRIX_HEIGHT \<or> unat y2 \<ge> MATRIX_HEIGHT then Some []
      else
        let dx = s16 \<bar>sint x2 - sint x1\<bar>;
            dy = s16 \<bar>sint y2 - sint y1\<bar>;
            sx = (if x1 < x2 then 1 else - 1);
            sy = (if y1 < y2 then 1 else - 1);
            err = s16 (dx - dy)
        in drawLine_loop dx dy sx sy (uint x2) (uint y2) (sint x1) (sint y1) err [])"

definition write_cells :: "matrix \<Rightarrow> (int \<times> int) list \<Rightarrow> u8 \<Rightarrow> matrix" where
  "write_cells m cells v = fold (\<lambda>(x, y) m. put m (nat x) (nat y) v) cells m"

definition drawLine :: "matrix \<Rightarrow> u16 \<Rightarrow> u16 \<Rightarrow> u16 \<Rightarrow> u16 \<Rightarrow> u8 \<Rightarrow> matrix option" where
  "drawLine m x1 y1 x2 y2 v =
     map_option (\<lambda>cells. write_cells m cells v) (drawLine_cells x1 y1 x2 y2)"

text \<open>Two cells are adjacent: one unit step in x, in y, or in both.\<close>

definition adjacent :: "int \<times> int \<Rightarrow> int \<times> int \<Rightarrow> bool" where
  "adjacent a b = (\<bar>fst b - fst a\<bar> \<le> 1 \<and> \<bar>snd b - snd a\<bar> \<le> 1 \<and> a \<noteq> b)"

fun stepwise :: "(int \<times> int) list \<Rightarrow> bool" where
  "stepwise [] = True"
| "stepwise [a] = True"
| "stepwise (a # b # cs) = (adjacent a b \<and> stepwise (b # cs))"

definition in_matrix :: "int \<times> int \<Rightarrow> bool" where
  "in_matrix c = (0 \<le> fst c \<and> fst c < int MATRIX_WIDTH \<and> 0 \<le> snd c \<and> snd c < int MATRIX_HEIGHT)"

section \<open>Processor (pds.cpp, lines 108 to 173)\<close>

definition readSample :: "u8 list \<Rightarrow> nat \<Rightarrow> fault + u8" where
  "readSample data i = (if i < length data then Inr (data ! i) else Inl OutOfBounds)"

text \<open>
  Lines 119 to 132: the start index and the trigger state after the search. The search
  result \<open>SIZE_MAX\<close> is "not found".
\<close>

definition locateStart :: "Pds \<Rightarrow> u8 list \<Rightarrow> nat \<times> Pds" where
  "locateStart p data =
     (let p = p\<lparr>triggerDetected := False\<rparr>
      in if triggerMode p \<noteq> TRIGGER_OFF then
           (let triggerPos = findTrigger p data
            in if triggerPos \<noteq> SIZE_MAX
               then (triggerPos, p\<lparr>triggerDetected := True, triggerPosition := triggerPos\<rparr>)
               else (0, p))
         else (0, p))"

text \<open>
  Lines 135 to 137. The start index is below the length (it is 0 or an index the search
  returned), so the unsigned subtraction does not wrap.
\<close>

definition pixelsToFill :: "nat \<Rightarrow> nat \<Rightarrow> nat \<Rightarrow> nat" where
  "pixelsToFill inputLength startIndex spp =
     (let availableSamples = inputLength - startIndex
      in if availableSamples div spp < MATRIX_WIDTH then availableSamples div spp
         else MATRIX_WIDTH)"

text \<open>
  Lines 154 to 160: the run of samples averaged for one column. The index
  \<open>sampleIndex + i\<close> is a \<open>size_t\<close> sum.
\<close>

function avgLoop :: "u8 list \<Rightarrow> nat \<Rightarrow> nat \<Rightarrow> nat \<Rightarrow> nat \<Rightarrow> nat \<Rightarrow> fault + (nat \<times> nat)" where
  "avgLoop data sampleIndex spp i sumv sampleCount =
     (if i < spp \<and> size_t (sampleIndex + i) < length data then
        (case readSample data (size_t (sampleIndex + i)) of
           Inl e \<Rightarrow> Inl e
         | Inr v \<Rightarrow> avgLoop data sampleIndex spp (i + 1) (sumv + unat v) (sampleCount + 1))
      else Inr (sumv, sampleCount))"
  by pat_completeness auto
termination
  by (relation "measure (\<lambda>(data, sampleIndex, spp, i, sumv, sampleCount). spp - i)") auto

declare avgLoop.simps [simp del]

text \<open>Line 162: the average, or the single sample when the run is empty.\<close>

definition avgValue :: "u8 list \<Rightarrow> nat \<Rightarrow> nat \<Rightarrow> nat \<Rightarrow> fault + u8" where
  "avgValue data sampleIndex sumv sampleCount =
     (if sampleCount > 0 then Inr (word_of_nat (sumv div sampleCount))
      else readSample data sampleIndex)"

text \<open>Lines 147 to 169: the loop over the pixel columns, from column \<open>x\<close> on.\<close>

function drawColumns ::
  "Pds \<Rightarrow> u8 list \<Rightarrow> nat \<Rightarrow> nat \<Rightarrow> nat \<Rightarrow> u16 \<Rightarrow> matrix \<Rightarrow> fault + matrix" where
  "drawColumns p data startIndex ptf x prevY m =
     (if x < ptf then
        (let sampleIndex = startIndex + x * unat (samplesPerPixel p)
         in if sampleIndex \<ge> length data then Inr m
            else
              case avgLoop data sampleIndex (unat (samplesPerPixel p)) 0 0 0 of
                Inl e \<Rightarrow> Inl e
              | Inr (sumv, sampleCount) \<Rightarrow>
                  (case avgValue data sampleIndex sumv sampleCount of
                     Inl e \<Rightarrow> Inl e
                   | Inr avg \<Rightarrow>
                       (case scaleAmplitude p avg of
                          Inl e \<Rightarrow> Inl e
                        | Inr currentY \<Rightarrow>
                            (case drawLine m (word_of_nat (x - 1)) prevY (word_of_nat x)
                                    currentY 255 of
                               None \<Rightarrow> Inl NonTermination
                             | Some m' \<Rightarrow>
                                 drawColumns p data startIndex ptf (x + 1) currentY m'))))
      else Inr m)"
  by pat_completeness auto
termination
  by (relation "measure (\<lambda>(p, data, startIndex, ptf, x, prevY, m). ptf - x)") auto

declare drawColumns.simps [simp del]

text \<open>
  \<open>processData\<close> returns its boolean result, the object after the call and the matrix
  after the call.
\<close>

definition processData ::
  "Pds \<Rightarrow> u8 list option \<Rightarrow> matrix option \<Rightarrow> fault + (bool \<times> Pds \<times> matrix option)" where
  "processData p inputData outputMatrix =
     (case (inputData, outputMatrix) of
        (Some data, Some m) \<Rightarrow>
          if \<not> initialized p \<or> length data = 0 then Inr (False, p, outputMatrix)
          else
            let m = clearMatrix m;
                (startIndex, p) = locateStart p data
            in if unat (samplesPerPixel p) = 0 then Inl DivisionByZero
               else
                 let ptf = pixelsToFill (length data) startIndex (unat (samplesPerPixel p))
                 in if ptf = 0 then Inr (False, p, Some m)
                    else
                      case readSample data startIndex of
                        Inl e \<Rightarrow> Inl e
                      | Inr v \<Rightarrow>
                          (case scaleAmplitude p v of
                             Inl e \<Rightarrow> Inl e
                           | Inr prevY \<Rightarrow>
                               (case drawColumns p data startIndex ptf 1 prevY m of
                                  Inl e \<Rightarrow> Inl e
                                | Inr m' \<Rightarrow> Inr (True, p, Some m')))
      | _ \<Rightarrow> Inr (False, p, outputMatrix))"

section \<open>Trigger detector: properties\<close>

lemma findLevel_first: "data \<noteq> [] \<Longrightarrow> findLevel data level 0 = 0"
  by (subst findLevel.simps) (simp add: not_less)

text \<open>
  C2. In mode \<open>TRIGGER_LEVEL\<close> and on a buffer of at least two samples, \<open>findTrigger\<close>
  returns index 0, whatever the samples and the trigger level are: at index 0 the test
  is true.
\<close>

theorem findTrigger_level_zero:
  "triggerMode p = TRIGGER_LEVEL \<Longrightarrow> length data \<ge> 2 \<Longrightarrow> findTrigger p data = 0"
proof -
  assume mode: "triggerMode p = TRIGGER_LEVEL" and len: "length data \<ge> 2"
  from len have "data \<noteq> []" by auto
  then have "findLevel data (triggerLevel p) 0 = 0" by (rule findLevel_first)
  with mode len show ?thesis by (simp add: findTrigger_def)
qed

theorem findTrigger_level_zero_witness:
  "triggerMode (setTrigger Pds_ctor TRIGGER_LEVEL 100) = TRIGGER_LEVEL \<and>
   length [200, 7, 9 :: u8] \<ge> 2 \<and>
   findTrigger (setTrigger Pds_ctor TRIGGER_LEVEL 100) [200, 7, 9] = 0"
  using findTrigger_level_zero [of "setTrigger Pds_ctor TRIGGER_LEVEL 100" "[200, 7, 9]"]
  by (simp add: setTrigger_def Pds_ctor_def)

lemma findRising_none:
  "\<forall>j. i \<le> j \<and> j < length data \<longrightarrow> \<not> (data ! (j - 1) < level \<and> level \<le> data ! j)
   \<Longrightarrow> findRising data level i = SIZE_MAX"
proof (induction data level i rule: findRising.induct)
  case (1 data level i)
  show ?case
  proof (cases "i < length data")
    case True
    with "1.prems" have no: "\<not> (data ! (i - 1) < level \<and> level \<le> data ! i)" by auto
    from "1.prems" have "\<forall>j. i + 1 \<le> j \<and> j < length data \<longrightarrow>
        \<not> (data ! (j - 1) < level \<and> level \<le> data ! j)" by auto
    with "1.IH" True no have "findRising data level (i + 1) = SIZE_MAX" by blast
    with True no show ?thesis by (subst findRising.simps) auto
  next
    case False
    then show ?thesis by (subst findRising.simps) simp
  qed
qed

lemma findRising_first:
  "i \<le> k \<Longrightarrow> k < length data \<Longrightarrow> data ! (k - 1) < level \<and> level \<le> data ! k
   \<Longrightarrow> \<forall>j. i \<le> j \<and> j < k \<longrightarrow> \<not> (data ! (j - 1) < level \<and> level \<le> data ! j)
   \<Longrightarrow> findRising data level i = k"
proof (induction data level i rule: findRising.induct)
  case (1 data level i)
  show ?case
  proof (cases "i = k")
    case True
    with "1.prems" show ?thesis by (subst findRising.simps) simp
  next
    case False
    with "1.prems" have lt: "i < k" and il: "i < length data" by auto
    with "1.prems" have no: "\<not> (data ! (i - 1) < level \<and> level \<le> data ! i)" by auto
    from "1.prems" lt have "findRising data level (i + 1) = k"
      using "1.IH" il no by auto
    with il no show ?thesis by (subst findRising.simps) auto
  qed
qed

text \<open>
  C5. In mode \<open>TRIGGER_RISING\<close>, \<open>findTrigger\<close> returns the first index \<open>i\<close> in
  \<open>[1, length)\<close> with \<open>buffer[i-1] < level \<le> buffer[i]\<close>; it returns "not found"
  (\<open>SIZE_MAX\<close>) when the length is below 2 and when there is no such index.
\<close>

theorem findTrigger_rising:
  assumes "triggerMode p = TRIGGER_RISING"
  shows "(length data < 2 \<longrightarrow> findTrigger p data = SIZE_MAX) \<and>
         ((\<forall>i. 1 \<le> i \<and> i < length data \<longrightarrow>
              \<not> (data ! (i - 1) < triggerLevel p \<and> triggerLevel p \<le> data ! i))
            \<longrightarrow> findTrigger p data = SIZE_MAX) \<and>
         (\<forall>k. 1 \<le> k \<and> k < length data \<and>
              data ! (k - 1) < triggerLevel p \<and> triggerLevel p \<le> data ! k \<and>
              (\<forall>j. 1 \<le> j \<and> j < k \<longrightarrow>
                 \<not> (data ! (j - 1) < triggerLevel p \<and> triggerLevel p \<le> data ! j))
            \<longrightarrow> findTrigger p data = k)"
proof (intro conjI impI allI)
  assume "length data < 2"
  then show "findTrigger p data = SIZE_MAX" by (simp add: findTrigger_def)
next
  assume "\<forall>i. 1 \<le> i \<and> i < length data \<longrightarrow>
              \<not> (data ! (i - 1) < triggerLevel p \<and> triggerLevel p \<le> data ! i)"
  then have "findRising data (triggerLevel p) 1 = SIZE_MAX" by (intro findRising_none) auto
  with assms show "findTrigger p data = SIZE_MAX" by (simp add: findTrigger_def)
next
  fix k
  assume k: "1 \<le> k \<and> k < length data \<and>
              data ! (k - 1) < triggerLevel p \<and> triggerLevel p \<le> data ! k \<and>
              (\<forall>j. 1 \<le> j \<and> j < k \<longrightarrow>
                 \<not> (data ! (j - 1) < triggerLevel p \<and> triggerLevel p \<le> data ! j))"
  then have "findRising data (triggerLevel p) 1 = k" by (intro findRising_first) auto
  with assms k show "findTrigger p data = k" by (simp add: findTrigger_def)
qed

theorem findTrigger_rising_witness:
  "triggerMode (setTrigger Pds_ctor TRIGGER_RISING 128) = TRIGGER_RISING \<and>
   findTrigger (setTrigger Pds_ctor TRIGGER_RISING 128) [10, 200, 50, 220] = 1 \<and>
   findTrigger (setTrigger Pds_ctor TRIGGER_RISING 128) [10] = SIZE_MAX"
  using findTrigger_rising [of "setTrigger Pds_ctor TRIGGER_RISING 128" "[10, 200, 50, 220]"]
        findTrigger_rising [of "setTrigger Pds_ctor TRIGGER_RISING 128" "[10]"]
  by (simp add: setTrigger_def Pds_ctor_def)

section \<open>Single-precision arithmetic: properties\<close>

lemma expo_below_spec:
  "- 126 \<le> expo_below n a \<and> expo_below n a \<le> int n - 126 \<and>
   (expo_below n a \<noteq> - 126 \<longrightarrow> 2 powi (expo_below n a) \<le> a) \<and>
   (\<forall>e. expo_below n a < e \<and> e \<le> int n - 126 \<longrightarrow> a < 2 powi e)"
proof (induction n)
  case 0
  show ?case by simp
next
  case (Suc n)
  show ?case
  proof (cases "2 powi (int n - 125) \<le> a")
    case True
    then show ?thesis by simp
  next
    case False
    have "a < 2 powi e" if "expo_below n a < e \<and> e \<le> int (Suc n) - 126" for e
    proof (cases "e \<le> int n - 126")
      case True
      with that Suc show ?thesis by blast
    next
      case no: False
      with that have "e = int n - 125" by simp
      with False show ?thesis by simp
    qed
    with False Suc show ?thesis by simp
  qed
qed

lemma expo_below_mono: "a \<le> b \<Longrightarrow> expo_below n a \<le> expo_below n b"
proof (induction n)
  case 0
  show ?case by simp
next
  case (Suc n)
  show ?case
  proof (cases "2 powi (int n - 125) \<le> a")
    case True
    with Suc.prems have "2 powi (int n - 125) \<le> b" by linarith
    with True show ?thesis by simp
  next
    case False
    show ?thesis
    proof (cases "2 powi (int n - 125) \<le> b")
      case True
      have "expo_below n a \<le> int n - 126" using expo_below_spec [of n a] by blast
      with True False show ?thesis by simp
    next
      case no: False
      with False Suc show ?thesis by simp
    qed
  qed
qed

lemma expo_range: "- 126 \<le> expo a" "expo a \<le> 127"
  using expo_below_spec [of 253 a] by (simp_all add: expo_def)

lemma expo_lower: "expo a \<noteq> - 126 \<Longrightarrow> 2 powi (expo a) \<le> a"
  using expo_below_spec [of 253 a] by (simp add: expo_def)

lemma expo_upper: "expo a < e \<Longrightarrow> e \<le> 127 \<Longrightarrow> a < 2 powi e"
  using expo_below_spec [of 253 a] by (simp add: expo_def)

lemma expo_mono: "a \<le> b \<Longrightarrow> expo a \<le> expo b"
  unfolding expo_def by (rule expo_below_mono)

lemma round_even_of_int: "round_even (of_int n) = n"
  by (simp add: round_even_def)

lemma round_even_choice: "round_even t = \<lfloor>t\<rfloor> \<or> round_even t = \<lfloor>t\<rfloor> + 1"
  by (simp add: round_even_def Let_def)

lemma round_even_mono: "s \<le> t \<Longrightarrow> round_even s \<le> round_even t"
proof (cases "\<lfloor>s\<rfloor> = \<lfloor>t\<rfloor>")
  case True
  assume "s \<le> t"
  with True show ?thesis by (auto simp: round_even_def Let_def)
next
  case False
  assume "s \<le> t"
  then have "\<lfloor>s\<rfloor> \<le> \<lfloor>t\<rfloor>" by (rule floor_mono)
  with False have "\<lfloor>s\<rfloor> + 1 \<le> \<lfloor>t\<rfloor>" by simp
  with round_even_choice [of s] round_even_choice [of t] show ?thesis by linarith
qed

lemma round_mag_mono:
  assumes "0 \<le> a" and "a \<le> b"
  shows "round_mag a \<le> round_mag b"
proof (cases "expo a = expo b")
  case True
  define u :: real where "u = 2 powi (expo b - 23)"
  have u: "0 < u" by (simp add: u_def)
  from assms(2) u have "a / u \<le> b / u" by (simp add: divide_right_mono)
  then have "round_even (a / u) \<le> round_even (b / u)" by (rule round_even_mono)
  then have "real_of_int (round_even (a / u)) * u \<le> real_of_int (round_even (b / u)) * u"
    using u by simp
  then show ?thesis by (simp add: round_mag_def Let_def True u_def)
next
  case False
  with expo_mono [OF assms(2)] have lt: "expo a < expo b" by simp
  define ua ub :: real where "ua = 2 powi (expo a - 23)" and "ub = 2 powi (expo b - 23)"
  have ua: "0 < ua" and ub: "0 < ub" by (simp_all add: ua_def ub_def)
  have "expo a + 1 \<le> 127" using lt expo_range(2) [of b] by simp
  then have "a < 2 powi (expo a + 1)" by (intro expo_upper) simp_all
  also have "(2::real) powi (expo a + 1) = 2 ^ 24 * ua"
    by (simp add: ua_def power_int_diff power_int_add)
  finally have "a / ua \<le> real_of_int (2 ^ 24)" using ua by (simp add: pos_divide_le_eq)
  then have "round_even (a / ua) \<le> round_even (real_of_int (2 ^ 24))" by (rule round_even_mono)
  then have "round_even (a / ua) \<le> 2 ^ 24" by (simp only: round_even_of_int)
  then have "real_of_int (round_even (a / ua)) \<le> real_of_int (2 ^ 24)"
    by (simp only: of_int_le_iff)
  then have "real_of_int (round_even (a / ua)) \<le> 2 ^ 24" by simp
  then have "real_of_int (round_even (a / ua)) * ua \<le> 2 ^ 24 * ua" using ua by simp
  also have "2 ^ 24 * ua = (2::real) powi (expo a + 1)"
    by (simp add: ua_def power_int_diff power_int_add)
  also have "\<dots> \<le> 2 powi (expo b)" using lt by (intro power_int_increasing) simp_all
  finally have low: "round_mag a \<le> 2 powi (expo b)" by (simp add: round_mag_def Let_def ua_def)
  have "expo b \<noteq> - 126" using lt expo_range(1) [of a] by simp
  then have "2 powi (expo b) \<le> b" by (rule expo_lower)
  moreover have "(2::real) powi (expo b) = 2 ^ 23 * ub"
    by (simp add: ub_def power_int_diff)
  ultimately have "real_of_int (2 ^ 23) \<le> b / ub" using ub by (simp add: pos_le_divide_eq)
  then have "round_even (real_of_int (2 ^ 23)) \<le> round_even (b / ub)" by (rule round_even_mono)
  then have "2 ^ 23 \<le> round_even (b / ub)" by (simp only: round_even_of_int)
  then have "real_of_int (2 ^ 23) \<le> real_of_int (round_even (b / ub))"
    by (simp only: of_int_le_iff)
  then have "2 ^ 23 \<le> real_of_int (round_even (b / ub))" by simp
  then have "2 ^ 23 * ub \<le> real_of_int (round_even (b / ub)) * ub" using ub by simp
  also have "2 ^ 23 * ub = (2::real) powi (expo b)" by (simp add: ub_def power_int_diff)
  finally have "2 powi (expo b) \<le> round_mag b" by (simp add: round_mag_def Let_def ub_def)
  with low show ?thesis by linarith
qed

lemma round_mag_nonneg: "0 \<le> a \<Longrightarrow> 0 \<le> round_mag a"
proof -
  assume a: "0 \<le> a"
  have "0 \<le> a / 2 powi (expo a - 23)" using a by simp
  then have "round_even (real_of_int 0) \<le> round_even (a / 2 powi (expo a - 23))"
    by (intro round_even_mono) simp
  then have "0 \<le> round_even (a / 2 powi (expo a - 23))" by (simp only: round_even_of_int)
  then show ?thesis by (simp add: round_mag_def Let_def)
qed

lemma round_f32_nonneg:
  "0 \<le> x \<Longrightarrow> round_f32 x = (if round_mag x \<ge> 2 powi 128 then PInf else Finite (round_mag x))"
proof -
  assume x: "0 \<le> x"
  have z: "round_mag 0 = 0" by (simp add: round_mag_def round_even_def)
  show ?thesis
  proof (cases "x = 0")
    case True
    then show ?thesis by (simp add: round_f32_def z)
  next
    case False
    with x have "0 < x" by simp
    then show ?thesis by (simp add: round_f32_def Let_def)
  qed
qed



lemma expo_eq:
  assumes "- 126 \<le> e" and "e \<le> 127" and "e \<noteq> - 126 \<longrightarrow> 2 powi e \<le> a" and "a < 2 powi (e + 1)"
  shows "expo a = e"
proof (rule antisym)
  show "expo a \<le> e"
  proof (rule ccontr)
    assume "\<not> expo a \<le> e"
    then have lt: "e + 1 \<le> expo a" by simp
    then have "expo a \<noteq> - 126" using assms(1) by simp
    then have "2 powi (expo a) \<le> a" by (rule expo_lower)
    moreover have "(2::real) powi (e + 1) \<le> 2 powi (expo a)"
      using lt by (intro power_int_increasing) simp_all
    ultimately show False using assms(4) by linarith
  qed
  show "e \<le> expo a"
  proof (rule ccontr)
    assume "\<not> e \<le> expo a"
    then have lt: "expo a < e" by simp
    then have "a < 2 powi e" using assms(2) by (rule expo_upper)
    moreover have "e \<noteq> - 126" using lt expo_range(1) [of a] by simp
    ultimately show False using assms(3) by simp
  qed
qed

lemma round_f32_eval:
  assumes "0 \<le> a" and "- 126 \<le> e" and "e \<le> 127"
    and "e \<noteq> - 126 \<longrightarrow> 2 powi e \<le> a" and "a < 2 powi (e + 1)"
    and "round_even (a / 2 powi (e - 23)) = m" and "real_of_int m * 2 powi (e - 23) = r"
    and "r < 2 powi 128"
  shows "round_f32 a = Finite r"
proof -
  have "expo a = e" using assms(2-5) by (rule expo_eq)
  then have "round_mag a = r" using assms(6,7) by (simp add: round_mag_def Let_def)
  with assms(1,8) show ?thesis by (simp add: round_f32_nonneg)
qed

section \<open>Amplitude mapper: properties\<close>

lemma uint_word16_of_int: "0 \<le> k \<Longrightarrow> k < 65536 \<Longrightarrow> uint (word_of_int k :: u16) = k"
  by (simp add: uint_word_of_int take_bit_eq_mod)

lemma constrainValue_word_id: "(y::u16) \<le> hi \<Longrightarrow> constrainValue y 0 hi = y"
  by (auto simp: constrainValue_def)

lemma round_mag_0: "round_mag 0 = 0"
  by (simp add: round_mag_def round_even_def)

lemma round_mag_1: "round_mag 1 = 1"
  by code_simp

lemma round_mag_255: "round_mag 255 = 255"
  by code_simp

lemma round_mag_599: "round_mag 599 = 599"
  by code_simp

lemma round_mag_quarter: "round_mag (1 / 4) = 1 / 4"
  by code_simp

lemma round_mag_q: "round_mag (3 / 2048) = 3 / 2048"
  by code_simp

lemma round_mag_r: "round_mag (15 / 16) = 15 / 16"
  by code_simp

lemma round_f32_small:
  assumes "0 \<le> x" and "x \<le> b" and "round_mag b = b" and "b < 2 powi 128"
  shows "round_f32 x = Finite (round_mag x)" and "0 \<le> round_mag x" and "round_mag x \<le> b"
proof -
  show nn: "0 \<le> round_mag x" using assms(1) by (rule round_mag_nonneg)
  have "round_mag x \<le> round_mag b" using assms(1,2) by (rule round_mag_mono)
  then show le: "round_mag x \<le> b" by (simp only: assms(3))
  with assms(4) have "\<not> 2 powi 128 \<le> round_mag x" by linarith
  then show "round_f32 x = Finite (round_mag x)" using assms(1) by (simp add: round_f32_nonneg)
qed

lemma scaleAmplitude_finite:
  fixes p :: Pds and v :: u8 and s :: real
  assumes scale: "amplitudeScale p = Finite s" and pos: "0 < s"
  defines "c \<equiv> min (round_mag (real (unat v) * s)) 255"
    and "q \<equiv> round_mag (min (round_mag (real (unat v) * s)) 255 / 255)"
    and "r \<equiv> round_mag (round_mag (min (round_mag (real (unat v) * s)) 255 / 255) * 599)"
  shows "constrainValue_f32 (f32_mul (Finite (real (unat v))) (Finite s)) (Finite 0) (Finite 255) =
           Finite c"
    and "f32_div (Finite c) (Finite 255) = Finite q"
    and "f32_mul (Finite q) (Finite 599) = Finite r"
    and "0 \<le> c" and "c \<le> 255" and "0 \<le> q" and "q \<le> 1" and "0 \<le> r" and "r \<le> 599"
    and "\<exists>y. scaleAmplitude p v = Inr y \<and> uint y = 599 - \<lfloor>r\<rfloor>"
proof -
  define x where "x = real (unat v) * s"
  have x: "0 \<le> x" unfolding x_def using pos by (intro mult_nonneg_nonneg of_nat_0_le_iff less_imp_le)
  have m: "0 \<le> round_mag x" using x by (rule round_mag_nonneg)
  have c: "c = min (round_mag x) 255" by (simp add: c_def x_def)
  show c0: "0 \<le> c" and c1: "c \<le> 255" using m by (simp_all add: c)
  have big: "(255::real) < 2 powi 128" by simp
  have clamp: "constrainValue_f32 (round_f32 x) (Finite 0) (Finite 255) = Finite c"
  proof (cases "2 powi 128 \<le> round_mag x")
    case True
    with big have "c = 255" by (simp add: c)
    with True x show ?thesis by (simp add: round_f32_nonneg constrainValue_f32_def)
  next
    case False
    with x m show ?thesis
      by (auto simp: round_f32_nonneg constrainValue_f32_def c min_def)
  qed
  then show "constrainValue_f32 (f32_mul (Finite (real (unat v))) (Finite s)) (Finite 0) (Finite 255) =
           Finite c"
    by (simp add: x_def)
  have q: "q = round_mag (c / 255)" by (simp add: q_def c_def)
  have cq: "0 \<le> c / 255" "c / 255 \<le> 1" using c0 c1 by simp_all
  have one: "(1::real) < 2 powi 128" by simp
  note qs = round_f32_small [OF cq round_mag_1 one]
  show q0: "0 \<le> q" and q1: "q \<le> 1" using qs(2,3) by (simp_all add: q)
  show "f32_div (Finite c) (Finite 255) = Finite q" using qs(1) by (simp add: q)
  have r: "r = round_mag (q * 599)" by (simp add: r_def q_def)
  have qr: "0 \<le> q * 599" "q * 599 \<le> 599" using q0 q1 by simp_all
  have b599: "(599::real) < 2 powi 128" by simp
  note rs = round_f32_small [OF qr round_mag_599 b599]
  show r0: "0 \<le> r" and r1: "r \<le> 599" using rs(2,3) by (simp_all add: r)
  show rr: "f32_mul (Finite q) (Finite 599) = Finite r" using rs(1) by (simp add: r)
  define t where "t = \<lfloor>r\<rfloor>"
  have t0: "0 \<le> t" using r0 by (simp add: t_def)
  have "t \<le> \<lfloor>599::real\<rfloor>" unfolding t_def using r1 by (rule floor_mono)
  then have t1: "t \<le> 599" by simp
  have cast: "f32_to_u16 (Finite r) = Inr (word_of_int t)"
    using r0 t0 t1 by (simp add: f32_to_u16_def t_def)
  define y where "y = (word_of_int (599 - uint (word_of_int t :: u16)) :: u16)"
  have ut: "uint (word_of_int t :: u16) = t" using t0 t1 by (simp add: uint_word16_of_int)
  have uy: "uint y = 599 - t"
    unfolding y_def ut by (rule uint_word16_of_int) (use t0 t1 in auto)
  have le: "y \<le> 599" unfolding word_le_def uy using t0 by simp
  have e1: "f32_mul (Finite (real (unat v))) (amplitudeScale p) = round_f32 x"
    by (simp only: scale f32_mul.simps x_def)
  have e3: "f32_div (Finite c) (Finite 255) = Finite q" using qs(1) by (simp add: q)
  have h: "real (MATRIX_HEIGHT - 1) = 599" by (simp add: MATRIX_HEIGHT_def)
  have "scaleAmplitude p v =
          (case f32_to_u16 (Finite r) of Inl e \<Rightarrow> Inl e
           | Inr cast \<Rightarrow>
               Inr (constrainValue (word_of_int (int MATRIX_HEIGHT - 1 - uint cast) :: u16) 0
                      (word_of_nat (MATRIX_HEIGHT - 1))))"
    unfolding scaleAmplitude_def Let_def e1 clamp e3 h rr by (rule refl)
  also have "\<dots> = Inr (constrainValue y 0 599)"
    unfolding cast by (simp add: y_def MATRIX_HEIGHT_def)
  finally have "scaleAmplitude p v = Inr (constrainValue y 0 599)" .
  also have "constrainValue y 0 599 = y" using le by (rule constrainValue_word_id)
  finally show "\<exists>y. scaleAmplitude p v = Inr y \<and> uint y = 599 - \<lfloor>r\<rfloor>"
    using uy by (auto simp: t_def)
qed

text \<open>
  The value of \<open>scaleAmplitude\<close> at a sample and a scale, from the three rounded
  results. In the three examples after the first the rounding of a product or of the
  quotient changes the row: exact arithmetic would give 372, 599 and 481.
\<close>

lemma scaleAmplitude_eval:
  assumes "amplitudeScale p = Finite s"
    and "round_f32 (real (unat v) * s) = Finite sc" and "0 \<le> sc" and "sc \<le> 255"
    and "round_f32 (sc / 255) = Finite q" and "round_f32 (q * 599) = Finite r"
    and "\<lfloor>r\<rfloor> = t" and "0 \<le> r" and "r \<le> 599"
  shows "scaleAmplitude p v = Inr (word_of_int (599 - t))"
proof -
  have t0: "0 \<le> t" using assms(7,8) by auto
  have "\<lfloor>r\<rfloor> \<le> \<lfloor>599::real\<rfloor>" using assms(9) by (rule floor_mono)
  then have t1: "t \<le> 599" using assms(7) by simp
  have e1: "f32_mul (Finite (real (unat v))) (amplitudeScale p) = Finite sc"
    by (simp only: assms(1,2) f32_mul.simps)
  have e2: "constrainValue_f32 (Finite sc) (Finite 0) (Finite 255) = Finite sc"
    using assms(3,4) by (simp add: constrainValue_f32_def)
  have e3: "f32_div (Finite sc) (Finite 255) = Finite q" using assms(5) by simp
  have h: "real (MATRIX_HEIGHT - 1) = 599" by (simp add: MATRIX_HEIGHT_def)
  have e4: "f32_mul (Finite q) (Finite 599) = Finite r" using assms(6) by simp
  have cast: "f32_to_u16 (Finite r) = Inr (word_of_int t)"
    using assms(7,8) t0 t1 by (simp add: f32_to_u16_def)
  define y where "y = (word_of_int (599 - uint (word_of_int t :: u16)) :: u16)"
  have ut: "uint (word_of_int t :: u16) = t" using t0 t1 by (simp add: uint_word16_of_int)
  have uy: "uint y = 599 - t"
    unfolding y_def ut by (rule uint_word16_of_int) (use t0 t1 in auto)
  have le: "y \<le> 599" unfolding word_le_def uy using t0 by simp
  have "scaleAmplitude p v =
          (case f32_to_u16 (Finite r) of Inl e \<Rightarrow> Inl e
           | Inr cast \<Rightarrow>
               Inr (constrainValue (word_of_int (int MATRIX_HEIGHT - 1 - uint cast) :: u16) 0
                      (word_of_nat (MATRIX_HEIGHT - 1))))"
    unfolding scaleAmplitude_def Let_def e1 e2 e3 h e4 by (rule refl)
  also have "\<dots> = Inr (constrainValue y 0 599)"
    unfolding cast by (simp add: y_def MATRIX_HEIGHT_def)
  also have "constrainValue y 0 599 = y" using le by (rule constrainValue_word_id)
  finally show ?thesis unfolding y_def ut .
qed

lemma scaleAmplitude_Pds_ctor_2:
  "scaleAmplitude Pds_ctor 2 = Inr 595"
proof -
  have a: "round_f32 (2) = Finite (2)"
    by (rule round_f32_eval [where e = 1 and m = 8388608]) (simp_all add: round_even_def)
  have b: "round_f32 (2 / 255) = Finite (8421505 / 1073741824)"
    by (rule round_f32_eval [where e = "- 7" and m = 8421505]) (simp_all add: round_even_def)
  have c: "round_f32 (5044481495 / 1073741824) = Finite (9852503 / 2097152)"
    by (rule round_f32_eval [where e = 2 and m = 9852503]) (simp_all add: round_even_def)
  have "scaleAmplitude Pds_ctor 2 = Inr (word_of_int (599 - 4))"
    by (rule scaleAmplitude_eval [where s = "1" and sc = "2" and q = "8421505 / 1073741824" and r = "9852503 / 2097152" and t = 4])
      (simp_all add: a b c Pds_ctor_def)
  then show ?thesis by simp
qed

lemma scaleAmplitude_rounds_product:
  "scaleAmplitude (setAmplitudeScale Pds_ctor (Finite (2149 / 4096))) 185 = Inr 371"
proof -
  have a: "round_f32 (397565 / 4096) = Finite (397565 / 4096)"
    by (rule round_f32_eval [where e = 6 and m = 12722080]) (simp_all add: round_even_def)
  have b: "round_f32 (79513 / 208896) = Finite (12771971 / 33554432)"
    by (rule round_f32_eval [where e = "- 2" and m = 12771971]) (simp_all add: round_even_def)
  have c: "round_f32 (7650410629 / 33554432) = Finite (228)"
    by (rule round_f32_eval [where e = 7 and m = 14942208]) (simp_all add: round_even_def)
  have "scaleAmplitude (setAmplitudeScale Pds_ctor (Finite (2149 / 4096))) 185 = Inr (word_of_int (599 - 228))"
    by (rule scaleAmplitude_eval [where s = "2149 / 4096" and sc = "397565 / 4096" and q = "12771971 / 33554432" and r = "228" and t = 228])
      (simp_all add: a b c setAmplitudeScale_def Pds_ctor_def)
  then show ?thesis by simp
qed

lemma scaleAmplitude_rounds_to_one:
  "scaleAmplitude (setAmplitudeScale Pds_ctor (Finite (7170229 / 4294967296))) 255 = Inr 598"
proof -
  have a: "round_f32 (1828408395 / 4294967296) = Finite (14284441 / 33554432)"
    by (rule round_f32_eval [where e = "- 2" and m = 14284441]) (simp_all add: round_even_def)
  have b: "round_f32 (14284441 / 8556380160) = Finite (7170229 / 4294967296)"
    by (rule round_f32_eval [where e = "- 10" and m = 14340458]) (simp_all add: round_even_def)
  have c: "round_f32 (4294967171 / 4294967296) = Finite (1)"
    by (rule round_f32_eval [where e = "- 1" and m = 16777216]) (simp_all add: round_even_def)
  have "scaleAmplitude (setAmplitudeScale Pds_ctor (Finite (7170229 / 4294967296))) 255 = Inr (word_of_int (599 - 1))"
    by (rule scaleAmplitude_eval [where s = "7170229 / 4294967296" and sc = "14284441 / 33554432" and q = "7170229 / 4294967296" and r = "1" and t = 1])
      (simp_all add: a b c setAmplitudeScale_def Pds_ctor_def)
  then show ?thesis by simp
qed

lemma scaleAmplitude_rounds_row:
  "scaleAmplitude (setAmplitudeScale Pds_ctor (Finite (10240051 / 33554432))) 166 = Inr 480"
proof -
  have a: "round_f32 (849924233 / 16777216) = Finite (6640033 / 131072)"
    by (rule round_f32_eval [where e = 5 and m = 13280066]) (simp_all add: round_even_def)
  have b: "round_f32 (6640033 / 33423360) = Finite (13332145 / 67108864)"
    by (rule round_f32_eval [where e = "- 3" and m = 13332145]) (simp_all add: round_even_def)
  have c: "round_f32 (7985954855 / 67108864) = Finite (119)"
    by (rule round_f32_eval [where e = 6 and m = 15597568]) (simp_all add: round_even_def)
  have "scaleAmplitude (setAmplitudeScale Pds_ctor (Finite (10240051 / 33554432))) 166 = Inr (word_of_int (599 - 119))"
    by (rule scaleAmplitude_eval [where s = "10240051 / 33554432" and sc = "6640033 / 131072" and q = "13332145 / 67108864" and r = "119" and t = 119])
      (simp_all add: a b c setAmplitudeScale_def Pds_ctor_def)
  then show ?thesis by simp
qed

lemma word16_of_uint: "uint y = k \<Longrightarrow> y = word_of_int k" for y :: u16
  by auto

text \<open>
  C3 as stated fails: \<open>scaleAmplitude\<close> does not round. With the scale 1.0 of the
  constructor the sample 2 is mapped to row 595, and the rounded formula gives 594.
\<close>

theorem scaleAmplitude_round_counterexample:
  "scaleAmplitude Pds_ctor 2 = Inr 595 \<and> amplitudeScale Pds_ctor = Finite 1 \<and>
   mapY_spec 1 2 = 594"
proof -
  have "scaleAmplitude Pds_ctor 2 = Inr 595" by (rule scaleAmplitude_Pds_ctor_2)
  moreover have "mapY_spec 1 2 = 594"
    by (simp add: mapY_spec_def MATRIX_HEIGHT_def round_def)
  ultimately show ?thesis by (simp add: Pds_ctor_def)
qed

text \<open>
  C3, amended. For every sample and every finite scale above 0, \<open>scaleAmplitude\<close>
  computes in single precision, each operation rounded to nearest,
  \<open>scaled = clamp (sample * scale, 0, 255)\<close> and returns
  \<open>y = (H-1) - floor ((scaled / 255) * (H-1))\<close>, which lies in \<open>[0, H-1]\<close>, with
  \<open>H = 600\<close>: the fraction is dropped, not rounded. For a sample above 0, a scale of at
  least \<open>255 / sample\<close> gives \<open>y = 0\<close>; a scale of at most \<open>1 / 1024\<close> gives
  \<open>y = H-1\<close> for every sample.
\<close>

theorem scaleAmplitude_truncates:
  assumes "amplitudeScale p = Finite s" and "0 < s"
  shows "\<exists>scaled q r y.
           constrainValue_f32 (f32_mul (Finite (real (unat v))) (Finite s)) (Finite 0) (Finite 255) =
             Finite scaled \<and>
           f32_div (Finite scaled) (Finite 255) = Finite q \<and>
           f32_mul (Finite q) (Finite (real (MATRIX_HEIGHT - 1))) = Finite r \<and>
           scaleAmplitude p v = Inr y \<and>
           uint y = int MATRIX_HEIGHT - 1 - \<lfloor>r\<rfloor> \<and>
           0 \<le> uint y \<and> uint y \<le> int MATRIX_HEIGHT - 1 \<and>
           (0 < unat v \<and> s \<ge> 255 / real (unat v) \<longrightarrow> uint y = 0) \<and>
           (s \<le> 1 / 1024 \<longrightarrow> uint y = int MATRIX_HEIGHT - 1)"
proof -
  define x where "x = real (unat v) * s"
  define c where "c = min (round_mag x) 255"
  define q where "q = round_mag (c / 255)"
  define r where "r = round_mag (q * 599)"
  note fin = scaleAmplitude_finite [OF assms, of v, folded x_def, folded c_def, folded q_def,
      folded r_def]
  from fin(10) obtain y where y: "scaleAmplitude p v = Inr y" "uint y = 599 - \<lfloor>r\<rfloor>" by blast
  have x0: "0 \<le> x"
    unfolding x_def using assms(2) by (intro mult_nonneg_nonneg of_nat_0_le_iff less_imp_le)
  have t0: "0 \<le> \<lfloor>r\<rfloor>" using fin(8) by simp
  have "\<lfloor>r\<rfloor> \<le> \<lfloor>599::real\<rfloor>" using fin(9) by (rule floor_mono)
  then have t1: "\<lfloor>r\<rfloor> \<le> 599" by simp
  have h: "real (MATRIX_HEIGHT - 1) = 599" "int MATRIX_HEIGHT - 1 = 599"
    by (simp_all add: MATRIX_HEIGHT_def)
  have top: "uint y = 0" if "0 < unat v \<and> s \<ge> 255 / real (unat v)"
  proof -
    define n where "n = real (unat v)"
    from that have "0 < unat v" by blast
    then have n0: "0 < n" unfolding n_def by (simp only: of_nat_0_less_iff)
    from that have "255 / n \<le> s" unfolding n_def by blast
    with n0 have "255 \<le> s * n" by (simp only: pos_divide_le_eq)
    then have "255 \<le> x" by (simp only: x_def n_def mult.commute)
    then have "round_mag 255 \<le> round_mag x" by (intro round_mag_mono) simp_all
    then have "255 \<le> round_mag x" by (simp only: round_mag_255)
    then have "c = 255" by (simp add: c_def)
    then have "q = 1" by (simp add: q_def round_mag_1)
    then have "r = 599" by (simp add: r_def round_mag_599)
    with y(2) show ?thesis by simp
  qed
  have bottom: "uint y = int MATRIX_HEIGHT - 1" if "s \<le> 1 / 1024"
  proof -
    define n where "n = real (unat v)"
    have "unat v < 2 ^ LENGTH(8)" by (rule unsigned_less)
    then have "unat v \<le> 255" by simp
    then have "n \<le> real 255" unfolding n_def by (simp only: of_nat_le_iff)
    then have "n \<le> 255" by simp
    moreover have "0 \<le> n" unfolding n_def by (rule of_nat_0_le_iff)
    ultimately have "n * s \<le> 255 * (1 / 1024)"
      using that assms(2) by (intro mult_mono) simp_all
    then have "x \<le> 1 / 4" unfolding x_def n_def by simp
    with x0 have "round_mag x \<le> round_mag (1 / 4)" by (rule round_mag_mono)
    then have m: "round_mag x \<le> 1 / 4" by (simp only: round_mag_quarter)
    then have cm: "c = round_mag x" by (simp add: c_def)
    from m fin(4) have "0 \<le> c / 255" "c / 255 \<le> 3 / 2048" by (simp_all add: cm)
    then have "round_mag (c / 255) \<le> round_mag (3 / 2048)" by (rule round_mag_mono)
    then have "q \<le> 3 / 2048" by (simp only: q_def round_mag_q)
    with fin(6) have "0 \<le> q * 599" "q * 599 \<le> 15 / 16" by simp_all
    then have "round_mag (q * 599) \<le> round_mag (15 / 16)" by (rule round_mag_mono)
    then have "r \<le> 15 / 16" by (simp only: r_def round_mag_r)
    with fin(8) have "\<lfloor>r\<rfloor> = 0" by linarith
    with y(2) show ?thesis by (simp add: h)
  qed
  from fin(1,2) fin(3) [folded h(1)] y t0 t1 top bottom show ?thesis
    unfolding h(2) by (intro exI [of _ c] exI [of _ q] exI [of _ r] exI [of _ y]) auto
qed

theorem scaleAmplitude_truncates_witness:
  "amplitudeScale (setAmplitudeScale Pds_ctor (Finite 2)) = Finite 2 \<and> (0::real) < 2 \<and>
   0 < unat (200 :: u8) \<and> (2::real) \<ge> 255 / real (unat (200 :: u8)) \<and>
   scaleAmplitude (setAmplitudeScale Pds_ctor (Finite 2)) 200 = Inr 0 \<and>
   amplitudeScale (setAmplitudeScale Pds_ctor (Finite (1 / 1024))) = Finite (1 / 1024) \<and>
   (0::real) < 1 / 1024 \<and> (1 / 1024 :: real) \<le> 1 / 1024 \<and>
   scaleAmplitude (setAmplitudeScale Pds_ctor (Finite (1 / 1024))) 255 = Inr 599"
proof -
  have a: "amplitudeScale (setAmplitudeScale Pds_ctor (Finite 2)) = Finite 2"
    and b: "amplitudeScale (setAmplitudeScale Pds_ctor (Finite (1 / 1024))) = Finite (1 / 1024)"
    by (simp_all add: setAmplitudeScale_def Pds_ctor_def)
  have pre: "0 < unat (200 :: u8) \<and> (2::real) \<ge> 255 / real (unat (200 :: u8))" by simp
  from scaleAmplitude_truncates [OF a, of 200] pre
  obtain y where "scaleAmplitude (setAmplitudeScale Pds_ctor (Finite 2)) 200 = Inr y" "uint y = 0"
    by auto
  then have one: "scaleAmplitude (setAmplitudeScale Pds_ctor (Finite 2)) 200 = Inr 0"
    by (auto dest: word16_of_uint)
  from scaleAmplitude_truncates [OF b, of 255]
  obtain y' where "scaleAmplitude (setAmplitudeScale Pds_ctor (Finite (1 / 1024))) 255 = Inr y'"
    "uint y' = int MATRIX_HEIGHT - 1"
    by auto
  then have "scaleAmplitude (setAmplitudeScale Pds_ctor (Finite (1 / 1024))) 255 =
      Inr (word_of_int (int MATRIX_HEIGHT - 1))"
    by (auto dest: word16_of_uint)
  then have two: "scaleAmplitude (setAmplitudeScale Pds_ctor (Finite (1 / 1024))) 255 = Inr 599"
    by (simp add: MATRIX_HEIGHT_def)
  from a b pre one two show ?thesis by simp
qed

text \<open>
  The setter accepts the scale \<open>+inf\<close>. Then a sample above 0 is mapped to row 0, and
  for the sample 0 the product is NaN, which the clamp passes on and the cast leaves
  undefined. The row is below \<open>H\<close> whenever there is one.
\<close>

lemma scaleAmplitude_infinite_scale:
  "scaleAmplitude (setAmplitudeScale Pds_ctor PInf) 0 = Inl UndefinedCast"
  "0 < unat v \<Longrightarrow> scaleAmplitude (setAmplitudeScale Pds_ctor PInf) v = Inr 0"
proof -
  have p: "amplitudeScale (setAmplitudeScale Pds_ctor PInf) = PInf"
    by (simp add: setAmplitudeScale_def Pds_ctor_def)
  show "scaleAmplitude (setAmplitudeScale Pds_ctor PInf) 0 = Inl UndefinedCast"
    by (simp add: scaleAmplitude_def p constrainValue_f32_def f32_to_u16_def)
  assume "0 < unat v"
  then have "0 < real (unat v)" by (simp only: of_nat_0_less_iff)
  then have m: "f32_mul (Finite (real (unat v))) PInf = PInf" by simp
  have a: "round_f32 1 = Finite 1" "round_f32 599 = Finite 599"
    by (simp_all add: round_f32_nonneg round_mag_1 round_mag_599)
  have c: "f32_to_u16 (Finite 599) = Inr 599" by (simp add: f32_to_u16_def)
  show "scaleAmplitude (setAmplitudeScale Pds_ctor PInf) v = Inr 0"
    unfolding scaleAmplitude_def p m
    by (simp add: constrainValue_f32_def a c MATRIX_HEIGHT_def constrainValue_def)
qed

lemma scaleAmplitude_range: "scaleAmplitude p v = Inr y \<Longrightarrow> unat y < MATRIX_HEIGHT"
proof -
  assume "scaleAmplitude p v = Inr y"
  then obtain w :: u16 where "y = constrainValue w 0 (word_of_nat (MATRIX_HEIGHT - 1))"
    by (auto simp: scaleAmplitude_def Let_def split: sum.splits)
  then have "y \<le> 599" by (auto simp: constrainValue_def MATRIX_HEIGHT_def)
  then have "unat y \<le> unat (599 :: u16)" by (simp only: word_le_nat_alt)
  then show ?thesis by (simp add: MATRIX_HEIGHT_def)
qed

section \<open>Configuration: properties\<close>

lemma config_ok_ctor: "config_ok Pds_ctor"
  by (simp add: config_ok_def Pds_ctor_def)

lemma config_ok_apply_call: "config_ok p \<Longrightarrow> config_ok (apply_call c p)"
proof (cases c)
  case Begin
  assume "config_ok p"
  with Begin show ?thesis by (simp add: config_ok_def pds_begin_def)
next
  case (SetTrigger mode level)
  assume "config_ok p"
  with SetTrigger show ?thesis by (simp add: config_ok_def setTrigger_def)
next
  case (SetAmplitudeScale scale)
  assume "config_ok p"
  with SetAmplitudeScale show ?thesis by (simp add: config_ok_def setAmplitudeScale_def)
next
  case (SetTimeScale spp)
  assume ok: "config_ok p"
  show ?thesis
  proof (cases "spp > 0")
    case True
    then have "unat spp \<noteq> 0" by (simp add: unat_eq_0)
    with ok SetTimeScale True show ?thesis by (simp add: config_ok_def setTimeScale_def)
  next
    case False
    with ok SetTimeScale show ?thesis by (simp add: setTimeScale_def)
  qed
qed

lemma config_ok_fold: "config_ok p \<Longrightarrow> config_ok (fold apply_call calls p)"
  by (induction calls arbitrary: p) (simp_all add: config_ok_apply_call)

text \<open>
  C8. After the constructor and any sequence of configuration calls the amplitude scale
  is above 0 and the number of samples per pixel is at least 1. \<open>setAmplitudeScale\<close>
  with an argument that is not above 0 (zero, negative or NaN) and \<open>setTimeScale\<close> with
  0 leave the object as it was, and a processing call after them behaves as it would
  have without them.
\<close>

theorem config_invariant:
  "config_ok (configure calls) \<and>
   (\<not> f32_less (Finite 0) scale \<longrightarrow>
      setAmplitudeScale p scale = p \<and>
      processData (setAmplitudeScale p scale) inputData outputMatrix =
        processData p inputData outputMatrix) \<and>
   setTimeScale p 0 = p \<and>
   processData (setTimeScale p 0) inputData outputMatrix = processData p inputData outputMatrix"
proof -
  have "config_ok (configure calls)"
    unfolding configure_def using config_ok_ctor by (rule config_ok_fold)
  moreover have "setAmplitudeScale p scale = p" if "\<not> f32_less (Finite 0) scale"
    using that by (simp add: setAmplitudeScale_def)
  moreover have "setTimeScale p 0 = p"
    by (simp add: setTimeScale_def)
  ultimately show ?thesis by simp
qed

theorem config_invariant_witness:
  "config_ok (configure [Begin, SetAmplitudeScale (Finite (- 1)), SetAmplitudeScale NaN,
                         SetTimeScale 0, SetTimeScale 4]) \<and>
   \<not> f32_less (Finite 0) (Finite (- 1)) \<and>
   setAmplitudeScale (pds_begin Pds_ctor) (Finite (- 1)) = pds_begin Pds_ctor \<and>
   processData (setAmplitudeScale (pds_begin Pds_ctor) (Finite (- 1))) (Some [1, 2]) None =
     processData (pds_begin Pds_ctor) (Some [1, 2]) None"
  using config_invariant [of "[Begin, SetAmplitudeScale (Finite (- 1)), SetAmplitudeScale NaN,
      SetTimeScale 0, SetTimeScale 4]"
      "Finite (- 1)" "pds_begin Pds_ctor" "Some [1, 2]" None]
  by simp

section \<open>Processor: properties\<close>

lemma clear_row:
  "fold (\<lambda>x m. put m x y 0) [0 ..< n] m = (\<lambda>y' x'. if y' = y \<and> x' < n then 0 else m y' x')"
proof (induction n)
  case 0
  show ?case by simp
next
  case (Suc n)
  then show ?case by (auto simp: put_def fun_eq_iff less_Suc_eq)
qed

lemma clear_rows:
  "fold (\<lambda>y m. fold (\<lambda>x m. put m x y 0) [0 ..< w] m) [0 ..< n] m =
     (\<lambda>y' x'. if y' < n \<and> x' < w then 0 else m y' x')"
proof (induction n)
  case 0
  show ?case by simp
next
  case (Suc n)
  then show ?case by (auto simp: clear_row fun_eq_iff less_Suc_eq)
qed

lemma clearMatrix_apply:
  "clearMatrix m y x = (if y < MATRIX_HEIGHT \<and> x < MATRIX_WIDTH then 0 else m y x)"
  by (simp add: clearMatrix_def clear_rows)

lemma findTrigger_state:
  "findTrigger (p\<lparr>triggerDetected := d\<rparr>) data = findTrigger p data"
  by (simp add: findTrigger_def split: TriggerMode.splits)

lemma locateStart_config:
  "samplesPerPixel (snd (locateStart p data)) = samplesPerPixel p"
  "amplitudeScale (snd (locateStart p data)) = amplitudeScale p"
  "initialized (snd (locateStart p data)) = initialized p"
  by (simp_all add: locateStart_def Let_def)

lemma processData_invalid:
  "inputData = None \<or> inputData = Some [] \<or> outputMatrix = None \<or> \<not> initialized p
   \<Longrightarrow> processData p inputData outputMatrix = Inr (False, p, outputMatrix)"
  by (auto simp: processData_def split: option.splits)

lemma processData_insufficient:
  assumes "initialized p" "data \<noteq> []" "unat (samplesPerPixel p) \<noteq> 0"
    and "pixelsToFill (length data) (fst (locateStart p data)) (unat (samplesPerPixel p)) = 0"
  shows "processData p (Some data) (Some m) =
           Inr (False, snd (locateStart p data), Some (clearMatrix m))"
  using assms
  by (simp add: processData_def Let_def split_beta locateStart_config)

text \<open>
  C6. The number of pixel columns a processing call fills is
  \<open>min (W, (length - start) div samplesPerPixel)\<close> with \<open>W = 800\<close>; with one sample per
  pixel it is \<open>min (W, length - start)\<close>; and when it is 0 the call returns false.
\<close>

theorem pixelsToFill_min:
  "(spp \<ge> 1 \<longrightarrow>
      pixelsToFill inputLength startIndex spp =
        min MATRIX_WIDTH ((inputLength - startIndex) div spp)) \<and>
   pixelsToFill inputLength startIndex 1 = min MATRIX_WIDTH (inputLength - startIndex) \<and>
   (initialized p \<and> data \<noteq> [] \<and> unat (samplesPerPixel p) \<ge> 1 \<and>
    pixelsToFill (length data) (fst (locateStart p data)) (unat (samplesPerPixel p)) = 0 \<longrightarrow>
      (\<exists>p' m'. processData p (Some data) (Some m) = Inr (False, p', m')))"
proof (intro conjI impI)
  show "pixelsToFill inputLength startIndex spp =
        min MATRIX_WIDTH ((inputLength - startIndex) div spp)"
    by (simp add: pixelsToFill_def Let_def min_def)
  show "pixelsToFill inputLength startIndex 1 = min MATRIX_WIDTH (inputLength - startIndex)"
    by (simp add: pixelsToFill_def Let_def min_def)
next
  assume "initialized p \<and> data \<noteq> [] \<and> unat (samplesPerPixel p) \<ge> 1 \<and>
    pixelsToFill (length data) (fst (locateStart p data)) (unat (samplesPerPixel p)) = 0"
  then have "processData p (Some data) (Some m) =
           Inr (False, snd (locateStart p data), Some (clearMatrix m))"
    by (intro processData_insufficient) auto
  then show "\<exists>p' m'. processData p (Some data) (Some m) = Inr (False, p', m')" by blast
qed

theorem pixelsToFill_min_witness:
  "(2::nat) \<ge> 1 \<and> pixelsToFill 7 1 2 = min MATRIX_WIDTH ((7 - 1) div 2) \<and>
   initialized (setTimeScale (pds_begin Pds_ctor) 5) \<and> [1, 2, 3 :: u8] \<noteq> [] \<and>
   unat (samplesPerPixel (setTimeScale (pds_begin Pds_ctor) 5)) \<ge> 1 \<and>
   pixelsToFill (length [1, 2, 3 :: u8])
     (fst (locateStart (setTimeScale (pds_begin Pds_ctor) 5) [1, 2, 3]))
     (unat (samplesPerPixel (setTimeScale (pds_begin Pds_ctor) 5))) = 0 \<and>
   (\<exists>p' m'. processData (setTimeScale (pds_begin Pds_ctor) 5) (Some [1, 2, 3]) (Some (filled 9)) =
      Inr (False, p', m'))"
  using pixelsToFill_min [of 2 7 1 "setTimeScale (pds_begin Pds_ctor) 5" "[1, 2, 3]" "filled 9"]
  by (simp add: setTimeScale_def pds_begin_def Pds_ctor_def locateStart_def pixelsToFill_def
      MATRIX_WIDTH_def)


lemma clearMatrix_idem: "clearMatrix (clearMatrix m) = clearMatrix m"
  by (simp add: fun_eq_iff clearMatrix_apply)

text \<open>
  C1 as stated fails: on an empty buffer \<open>processData\<close> returns false before it clears
  the matrix, so a cell that held 255 still holds 255.
\<close>

theorem processData_empty_counterexample:
  "processData (pds_begin Pds_ctor) (Some []) (Some (filled 255)) =
     Inr (False, pds_begin Pds_ctor, Some (filled 255)) \<and>
   filled 255 0 0 \<noteq> 0"
  by (simp add: processData_invalid filled_def)

text \<open>
  C1, amended. A call of \<open>processData\<close> with a null or an empty input buffer returns
  false and leaves the output matrix as it was: the matrix is not cleared. A call that
  passes the parameter check clears the matrix before anything else, so its result does
  not depend on what the matrix held, and when it then returns false every cell of the
  matrix is zero.
\<close>

theorem processData_clears_after_check:
  "(inputData = None \<or> inputData = Some [] \<longrightarrow>
      processData p inputData outputMatrix = Inr (False, p, outputMatrix)) \<and>
   (initialized p \<and> data \<noteq> [] \<longrightarrow>
      processData p (Some data) (Some m) = processData p (Some data) (Some (clearMatrix m))) \<and>
   (initialized p \<and> data \<noteq> [] \<and> processData p (Some data) (Some m) = Inr (False, p', om) \<longrightarrow>
      (\<exists>m'. om = Some m' \<and> (\<forall>y < MATRIX_HEIGHT. \<forall>x < MATRIX_WIDTH. m' y x = 0)))"
proof (intro conjI impI)
  assume "inputData = None \<or> inputData = Some []"
  then show "processData p inputData outputMatrix = Inr (False, p, outputMatrix)"
    by (intro processData_invalid) auto
next
  assume "initialized p \<and> data \<noteq> []"
  then show "processData p (Some data) (Some m) = processData p (Some data) (Some (clearMatrix m))"
    by (simp add: processData_def clearMatrix_idem)
next
  assume a: "initialized p \<and> data \<noteq> [] \<and> processData p (Some data) (Some m) = Inr (False, p', om)"
  then have "om = Some (clearMatrix m)"
    by (auto simp: processData_def Let_def split_beta split: if_splits sum.splits)
  then show "\<exists>m'. om = Some m' \<and> (\<forall>y < MATRIX_HEIGHT. \<forall>x < MATRIX_WIDTH. m' y x = 0)"
    by (simp add: clearMatrix_apply)
qed

theorem processData_clears_after_check_witness:
  "initialized (setTimeScale (pds_begin Pds_ctor) 5) \<and> [1, 2, 3 :: u8] \<noteq> [] \<and>
   processData (setTimeScale (pds_begin Pds_ctor) 5) (Some [1, 2, 3]) (Some (filled 255)) =
     Inr (False, (setTimeScale (pds_begin Pds_ctor) 5), Some (clearMatrix (filled 255))) \<and>
   (\<exists>m'. Some (clearMatrix (filled 255)) = Some m' \<and>
      (\<forall>y < MATRIX_HEIGHT. \<forall>x < MATRIX_WIDTH. m' y x = 0)) \<and>
   processData (setTimeScale (pds_begin Pds_ctor) 5) None (Some (filled 255)) =
     Inr (False, setTimeScale (pds_begin Pds_ctor) 5, Some (filled 255))"
proof -
  have call: "processData (setTimeScale (pds_begin Pds_ctor) 5) (Some [1, 2, 3]) (Some (filled 255)) =
     Inr (False, (setTimeScale (pds_begin Pds_ctor) 5), Some (clearMatrix (filled 255)))"
    by (simp add: processData_def setTimeScale_def pds_begin_def Pds_ctor_def locateStart_def
        pixelsToFill_def MATRIX_WIDTH_def)
  have init: "initialized (setTimeScale (pds_begin Pds_ctor) 5)"
    by (simp add: setTimeScale_def pds_begin_def)
  show ?thesis
    using processData_clears_after_check [of None "setTimeScale (pds_begin Pds_ctor) 5"
        "Some (filled 255)" "[1, 2, 3]" "filled 255" "setTimeScale (pds_begin Pds_ctor) 5"
        "Some (clearMatrix (filled 255))"] call init
    by simp
qed

lemma findRising_at_1:
  "1 < length data \<Longrightarrow> data ! 0 < level \<Longrightarrow> level \<le> data ! 1 \<Longrightarrow> findRising data level 1 = 1"
  by (subst findRising.simps) simp

lemma locateStart_found:
  "triggerMode p \<noteq> TRIGGER_OFF \<Longrightarrow> findTrigger p data \<noteq> SIZE_MAX \<Longrightarrow>
   locateStart p data =
     (findTrigger p data, p\<lparr>triggerDetected := True, triggerPosition := findTrigger p data\<rparr>)"
  by (simp add: locateStart_def Let_def findTrigger_state)

text \<open>
  C9. When \<open>processData\<close> finds a trigger and then fails because no pixel column can be
  filled, the trigger state is already stored: after the call that returned false,
  \<open>getTriggerStatus\<close> is true and \<open>getTriggerPosition\<close> is the position found in this
  call, whatever the previous call had left.
\<close>

theorem trigger_state_kept_on_failure:
  assumes "initialized p" and "triggerMode p \<noteq> TRIGGER_OFF"
    and "findTrigger p data \<noteq> SIZE_MAX" and "unat (samplesPerPixel p) \<ge> 1"
    and "pixelsToFill (length data) (findTrigger p data) (unat (samplesPerPixel p)) = 0"
  shows "\<exists>p' om. processData p (Some data) (Some m) = Inr (False, p', om) \<and>
           getTriggerStatus p' \<and> getTriggerPosition p' = findTrigger p data"
proof -
  have ne: "data \<noteq> []"
    using assms(3) by (auto simp: findTrigger_def)
  have loc: "locateStart p data =
     (findTrigger p data, p\<lparr>triggerDetected := True, triggerPosition := findTrigger p data\<rparr>)"
    using assms(2,3) by (rule locateStart_found)
  have "processData p (Some data) (Some m) =
           Inr (False, snd (locateStart p data), Some (clearMatrix m))"
    using assms(1) ne assms(4,5) by (intro processData_insufficient) (simp_all add: loc)
  then show ?thesis
    by (simp add: loc getTriggerStatus_def getTriggerPosition_def)
qed

theorem trigger_state_kept_on_failure_witness:
  "initialized (setTimeScale (setTrigger (pds_begin Pds_ctor) TRIGGER_RISING 128) 2) \<and>
   triggerMode (setTimeScale (setTrigger (pds_begin Pds_ctor) TRIGGER_RISING 128) 2) \<noteq> TRIGGER_OFF \<and>
   findTrigger (setTimeScale (setTrigger (pds_begin Pds_ctor) TRIGGER_RISING 128) 2) [0, 200] = 1 \<and>
   \<not> getTriggerStatus (setTimeScale (setTrigger (pds_begin Pds_ctor) TRIGGER_RISING 128) 2) \<and>
   (\<exists>p' om. processData (setTimeScale (setTrigger (pds_begin Pds_ctor) TRIGGER_RISING 128) 2)
        (Some [0, 200]) (Some (filled 0)) = Inr (False, p', om) \<and>
      getTriggerStatus p' \<and> getTriggerPosition p' = 1)"
proof -
  define p where "p = setTimeScale (setTrigger (pds_begin Pds_ctor) TRIGGER_RISING 128) 2"
  have p: "initialized p" "triggerMode p = TRIGGER_RISING" "triggerLevel p = 128"
    "samplesPerPixel p = 2" "\<not> triggerDetected p"
    by (simp_all add: p_def setTimeScale_def setTrigger_def pds_begin_def Pds_ctor_def)
  have "findRising [0, 200] 128 1 = 1" by (rule findRising_at_1) simp_all
  then have ft: "findTrigger p [0, 200] = 1" by (simp add: findTrigger_def p)
  have "\<exists>p' om. processData p (Some [0, 200]) (Some (filled 0)) = Inr (False, p', om) \<and>
           getTriggerStatus p' \<and> getTriggerPosition p' = findTrigger p [0, 200]"
    by (rule trigger_state_kept_on_failure)
      (simp_all add: p ft SIZE_MAX_def pixelsToFill_def MATRIX_WIDTH_def)
  then show ?thesis
    unfolding p_def [symmetric] using p ft by (simp add: getTriggerStatus_def)
qed

section \<open>Rasterizer: properties\<close>

lemma s16_id: "- 32768 \<le> v \<Longrightarrow> v < 32768 \<Longrightarrow> s16 v = v"
  by (simp add: s16_def)

lemma drawLine_loop_stop:
  assumes "in_matrix (x2, y2)"
  shows "drawLine_loop dx dy sx sy x2 y2 x2 y2 err acc = Some (acc @ [(x2, y2)])"
  using assms by (subst drawLine_loop.simps) (simp add: in_matrix_def)

lemma drawLine_loop_step:
  assumes cell: "in_matrix (x, y)" and more: "x \<noteq> x2 \<or> y \<noteq> y2"
    and small: "\<bar>err\<bar> \<le> 4000" "\<bar>dx\<bar> \<le> 1000" "\<bar>dy\<bar> \<le> 1000" "\<bar>sx\<bar> \<le> 1" "\<bar>sy\<bar> \<le> 1"
  shows "drawLine_loop dx dy sx sy x2 y2 x y err acc =
           drawLine_loop dx dy sx sy x2 y2
             (if 2 * err > - dy then x + sx else x)
             (if 2 * err < dx then y + sy else y)
             ((if 2 * err > - dy then err - dy else err) + (if 2 * err < dx then dx else 0))
             (acc @ [(x, y)])"
proof -
  from cell have xy: "0 \<le> x" "x < 800" "0 \<le> y" "y < 600"
    by (simp_all add: in_matrix_def MATRIX_WIDTH_def MATRIX_HEIGHT_def)
  have e2: "s16 (2 * err) = 2 * err" using small by (intro s16_id) linarith+
  have e1: "s16 (err - dy) = err - dy" using small by (intro s16_id) linarith+
  have x': "s16 (x + sx) = x + sx" using xy small by (intro s16_id) linarith+
  have y': "s16 (y + sy) = y + sy" using xy small by (intro s16_id) linarith+
  have e3: "s16 (err - dy + dx) = err - dy + dx" using small by (intro s16_id) linarith+
  have e4: "s16 (err + dx) = err + dx" using small by (intro s16_id) linarith+
  have ne: "(x = x2 \<and> y = y2) = False" using more by blast
  show ?thesis
  proof (cases "2 * err > - dy")
    case True
    show ?thesis
    proof (cases "2 * err < dx")
      case yes: True
      with True cell show ?thesis
        by (subst drawLine_loop.simps) (simp add: Let_def e2 e1 x' y' e3 e4 in_matrix_def ne)
    next
      case no: False
      with True cell show ?thesis
        by (subst drawLine_loop.simps) (simp add: Let_def e2 e1 x' y' e3 e4 in_matrix_def ne)
    qed
  next
    case False
    show ?thesis
    proof (cases "2 * err < dx")
      case yes: True
      with False cell show ?thesis
        by (subst drawLine_loop.simps) (simp add: Let_def e2 e1 x' y' e3 e4 in_matrix_def ne)
    next
      case no: False
      with False cell show ?thesis
        by (subst drawLine_loop.simps) (simp add: Let_def e2 e1 x' y' e3 e4 in_matrix_def ne)
    qed
  qed
qed


lemma stepwise_Cons:
  "cells \<noteq> [] \<Longrightarrow> stepwise (a # cells) = (adjacent a (hd cells) \<and> stepwise cells)"
  by (cases cells) simp_all

lemma toward_in_range:
  fixes x x2 s :: int
  assumes "\<bar>s\<bar> = 1" "x2 = x + s * (int r + 1)" "0 \<le> x" "x < n" "0 \<le> x2" "x2 < n"
  shows "0 \<le> x + s \<and> x + s < n \<and> x2 = (x + s) + s * int r \<and> x \<noteq> x2 \<and>
         \<bar>x2 - x\<bar> = int r + 1 \<and> \<bar>(x + s) - x\<bar> \<le> 1"
proof -
  from assms(1) consider "s = 1" | "s = - 1" by linarith
  then show ?thesis
  proof cases
    case 1
    with assms show ?thesis by simp
  next
    case 2
    with assms show ?thesis by simp
  qed
qed

lemma loop_xmajor:
  fixes dx dy sx sy x2 y2 :: int
  assumes par: "0 \<le> dy" "dy < dx" "dx < 800" "\<bar>sx\<bar> = 1" "\<bar>sy\<bar> = 1" "in_matrix (x2, y2)"
  shows "in_matrix (x, y) \<Longrightarrow> x2 = x + sx * int rx \<Longrightarrow> y2 = y + sy * int ry \<Longrightarrow>
         err = dx - dy + (int rx * dy - int ry * dx) \<Longrightarrow>
         - dx \<le> 2 * (int rx * dy - int ry * dx) \<Longrightarrow> 2 * (int rx * dy - int ry * dx) < dx \<Longrightarrow>
         \<exists>cells. drawLine_loop dx dy sx sy x2 y2 x y err acc = Some (acc @ cells) \<and>
            length cells = rx + 1 \<and> hd cells = (x, y) \<and> last cells = (x2, y2) \<and>
            stepwise cells \<and> list_all in_matrix cells \<and>
            list_all (\<lambda>c. \<bar>x2 - fst c\<bar> \<le> int rx) cells \<and> distinct cells"
proof (induction rx arbitrary: x y err ry acc)
  case 0
  have "ry = 0"
  proof (cases ry)
    case 0
    then show ?thesis .
  next
    case (Suc k)
    have a: "0 \<le> int k * dx" using par by simp
    have b: "int ry * dx = dx + int k * dx" using Suc by (simp add: algebra_simps)
    define B where "B = int ry * dx"
    from a b have c: "dx \<le> B" unfolding B_def by arith
    from "0.prems"(5) have "2 * B \<le> dx" unfolding B_def by simp
    with c par(1,2) have False by arith
    then show ?thesis ..
  qed
  with "0.prems" have "x = x2" "y = y2" by simp_all
  then show ?case using drawLine_loop_stop [OF par(6)] par(6) by simp
next
  case (Suc r)
  define D where "D = int (Suc r) * dy - int ry * dx"
  have D: "- dx \<le> 2 * D" "2 * D < dx" "err = dx - dy + D"
    using Suc.prems by (simp_all add: D_def)
  have rdy: "0 \<le> int r * dy" using par by simp
  have exp: "int (Suc r) * dy = int r * dy + dy" by (simp add: algebra_simps)
  from Suc.prems(1) have xy: "0 \<le> x" "x < 800" "0 \<le> y" "y < 600"
    by (simp_all add: in_matrix_def MATRIX_WIDTH_def MATRIX_HEIGHT_def)
  from par(6) have xy2: "0 \<le> x2" "x2 < 800" "0 \<le> y2" "y2 < 600"
    by (simp_all add: in_matrix_def MATRIX_WIDTH_def MATRIX_HEIGHT_def)
  have tx: "0 \<le> x + sx \<and> x + sx < 800 \<and> x2 = (x + sx) + sx * int r \<and> x \<noteq> x2 \<and>
         \<bar>x2 - x\<bar> = int r + 1 \<and> \<bar>(x + sx) - x\<bar> \<le> 1"
    using par(4) _ xy(1,2) xy2(1,2) by (rule toward_in_range) (use Suc.prems(2) in simp)
  have small: "\<bar>err\<bar> \<le> 4000" "\<bar>dx\<bar> \<le> 1000" "\<bar>dy\<bar> \<le> 1000" "\<bar>sx\<bar> \<le> 1" "\<bar>sy\<bar> \<le> 1"
    using D par by arith+
  have xstep: "2 * err > - dy" using D par by arith
  have more: "x \<noteq> x2 \<or> y \<noteq> y2" using tx by blast
  note step = drawLine_loop_step [OF Suc.prems(1) more small, where acc = acc]
  show ?case
  proof (cases "2 * err < dx")
    case True
    obtain k where k: "ry = Suc k"
    proof (cases ry)
      case 0
      then have "D = int r * dy + dy" unfolding D_def exp by simp
      with D True rdy par have False by arith
      then show ?thesis ..
    next
      case (Suc k)
      then show ?thesis by (rule that)
    qed
    have expk: "int ry * dx = int k * dx + dx" using k by (simp add: algebra_simps)
    have ty: "0 \<le> y + sy \<and> y + sy < 600 \<and> y2 = (y + sy) + sy * int k \<and> y \<noteq> y2 \<and>
         \<bar>y2 - y\<bar> = int k + 1 \<and> \<bar>(y + sy) - y\<bar> \<le> 1"
      using par(5) _ xy(3,4) xy2(3,4) by (rule toward_in_range) (use Suc.prems(3) k in simp)
    have D': "int r * dy - int k * dx = D - dy + dx" unfolding D_def exp expk by simp
    have eq: "drawLine_loop dx dy sx sy x2 y2 x y err acc =
              drawLine_loop dx dy sx sy x2 y2 (x + sx) (y + sy) (err - dy + dx) (acc @ [(x, y)])"
      using step xstep True by simp
    have "\<exists>cells. drawLine_loop dx dy sx sy x2 y2 (x + sx) (y + sy) (err - dy + dx) (acc @ [(x, y)]) =
              Some ((acc @ [(x, y)]) @ cells) \<and>
            length cells = r + 1 \<and> hd cells = (x + sx, y + sy) \<and> last cells = (x2, y2) \<and>
            stepwise cells \<and> list_all in_matrix cells \<and>
            list_all (\<lambda>c. \<bar>x2 - fst c\<bar> \<le> int r) cells \<and> distinct cells"
    proof (rule Suc.IH [where ry = k])
      show "in_matrix (x + sx, y + sy)"
        using tx ty by (simp add: in_matrix_def MATRIX_WIDTH_def MATRIX_HEIGHT_def)
      show "x2 = x + sx + sx * int r" using tx by blast
      show "y2 = y + sy + sy * int k" using ty by blast
      show "err - dy + dx = dx - dy + (int r * dy - int k * dx)" unfolding D' using D by arith
      show "- dx \<le> 2 * (int r * dy - int k * dx)" unfolding D' using D par by arith
      show "2 * (int r * dy - int k * dx) < dx" unfolding D' using D True by arith
    qed
    then obtain cells where c: "drawLine_loop dx dy sx sy x2 y2 (x + sx) (y + sy) (err - dy + dx)
              (acc @ [(x, y)]) = Some ((acc @ [(x, y)]) @ cells)"
      "length cells = r + 1" "hd cells = (x + sx, y + sy)" "last cells = (x2, y2)"
      "stepwise cells" "list_all in_matrix cells"
      "list_all (\<lambda>c. \<bar>x2 - fst c\<bar> \<le> int r) cells" "distinct cells"
      by blast
    have ne: "cells \<noteq> []" using c(2) by auto
    have adj: "adjacent (x, y) (hd cells)"
      using c(3) tx ty par(4) by (auto simp: adjacent_def)
    have notin: "(x, y) \<notin> set cells"
      using c(7) tx by (auto simp: list_all_iff)
    have far: "list_all (\<lambda>c. \<bar>x2 - fst c\<bar> \<le> int (Suc r)) ((x, y) # cells)"
      using c(7) tx by (auto simp: list_all_iff)
    have "drawLine_loop dx dy sx sy x2 y2 x y err acc = Some (acc @ ((x, y) # cells))"
      using eq c(1) by simp
    moreover have "length ((x, y) # cells) = Suc r + 1" using c(2) by simp
    moreover have "last ((x, y) # cells) = (x2, y2)" using c(4) ne by simp
    moreover have "stepwise ((x, y) # cells)" using adj c(5) ne by (simp add: stepwise_Cons)
    moreover have "list_all in_matrix ((x, y) # cells)" using c(6) Suc.prems(1) by simp
    moreover have "distinct ((x, y) # cells)" using c(8) notin by simp
    ultimately show ?thesis using far by (intro exI [of _ "(x, y) # cells"]) simp
  next
    case False
    have D': "int r * dy - int ry * dx = D - dy" unfolding D_def exp by simp
    have eq: "drawLine_loop dx dy sx sy x2 y2 x y err acc =
              drawLine_loop dx dy sx sy x2 y2 (x + sx) y (err - dy) (acc @ [(x, y)])"
      using step xstep False by simp
    have "\<exists>cells. drawLine_loop dx dy sx sy x2 y2 (x + sx) y (err - dy) (acc @ [(x, y)]) =
              Some ((acc @ [(x, y)]) @ cells) \<and>
            length cells = r + 1 \<and> hd cells = (x + sx, y) \<and> last cells = (x2, y2) \<and>
            stepwise cells \<and> list_all in_matrix cells \<and>
            list_all (\<lambda>c. \<bar>x2 - fst c\<bar> \<le> int r) cells \<and> distinct cells"
    proof (rule Suc.IH [where ry = ry])
      show "in_matrix (x + sx, y)"
        using tx xy by (simp add: in_matrix_def MATRIX_WIDTH_def MATRIX_HEIGHT_def)
      show "x2 = x + sx + sx * int r" using tx by blast
      show "y2 = y + sy * int ry" using Suc.prems(3) .
      show "err - dy = dx - dy + (int r * dy - int ry * dx)" unfolding D' using D by arith
      show "- dx \<le> 2 * (int r * dy - int ry * dx)" unfolding D' using D False by arith
      show "2 * (int r * dy - int ry * dx) < dx" unfolding D' using D par by arith
    qed
    then obtain cells where c: "drawLine_loop dx dy sx sy x2 y2 (x + sx) y (err - dy)
              (acc @ [(x, y)]) = Some ((acc @ [(x, y)]) @ cells)"
      "length cells = r + 1" "hd cells = (x + sx, y)" "last cells = (x2, y2)"
      "stepwise cells" "list_all in_matrix cells"
      "list_all (\<lambda>c. \<bar>x2 - fst c\<bar> \<le> int r) cells" "distinct cells"
      by blast
    have ne: "cells \<noteq> []" using c(2) by auto
    have adj: "adjacent (x, y) (hd cells)"
      using c(3) tx par(4) by (auto simp: adjacent_def)
    have notin: "(x, y) \<notin> set cells"
      using c(7) tx by (auto simp: list_all_iff)
    have far: "list_all (\<lambda>c. \<bar>x2 - fst c\<bar> \<le> int (Suc r)) ((x, y) # cells)"
      using c(7) tx by (auto simp: list_all_iff)
    have "drawLine_loop dx dy sx sy x2 y2 x y err acc = Some (acc @ ((x, y) # cells))"
      using eq c(1) by simp
    moreover have "length ((x, y) # cells) = Suc r + 1" using c(2) by simp
    moreover have "last ((x, y) # cells) = (x2, y2)" using c(4) ne by simp
    moreover have "stepwise ((x, y) # cells)" using adj c(5) ne by (simp add: stepwise_Cons)
    moreover have "list_all in_matrix ((x, y) # cells)" using c(6) Suc.prems(1) by simp
    moreover have "distinct ((x, y) # cells)" using c(8) notin by simp
    ultimately show ?thesis using far by (intro exI [of _ "(x, y) # cells"]) simp
  qed
qed


lemma loop_ymajor:
  fixes dx dy sx sy x2 y2 :: int
  assumes par: "0 \<le> dx" "dx < dy" "dy < 600" "\<bar>sx\<bar> = 1" "\<bar>sy\<bar> = 1" "in_matrix (x2, y2)"
  shows "in_matrix (x, y) \<Longrightarrow> x2 = x + sx * int rx \<Longrightarrow> y2 = y + sy * int ry \<Longrightarrow>
         err = dx - dy + (int rx * dy - int ry * dx) \<Longrightarrow>
         - dy < 2 * (int rx * dy - int ry * dx) \<Longrightarrow> 2 * (int rx * dy - int ry * dx) \<le> dy \<Longrightarrow>
         \<exists>cells. drawLine_loop dx dy sx sy x2 y2 x y err acc = Some (acc @ cells) \<and>
            length cells = ry + 1 \<and> hd cells = (x, y) \<and> last cells = (x2, y2) \<and>
            stepwise cells \<and> list_all in_matrix cells \<and>
            list_all (\<lambda>c. \<bar>y2 - snd c\<bar> \<le> int ry) cells \<and> distinct cells"
proof (induction ry arbitrary: x y err rx acc)
  case 0
  have "rx = 0"
  proof (cases rx)
    case 0
    then show ?thesis .
  next
    case (Suc j)
    have a: "0 \<le> int j * dy" using par by simp
    have b: "int rx * dy = dy + int j * dy" using Suc by (simp add: algebra_simps)
    define A where "A = int rx * dy"
    from a b have c: "dy \<le> A" unfolding A_def by linarith
    from "0.prems"(6) have "2 * A \<le> dy" unfolding A_def by simp
    with c par(1,2) have False by arith
    then show ?thesis ..
  qed
  with "0.prems" have "x = x2" "y = y2" by simp_all
  then show ?case using drawLine_loop_stop [OF par(6)] par(6) by simp
next
  case (Suc k)
  define D where "D = int rx * dy - int (Suc k) * dx"
  have D: "- dy < 2 * D" "2 * D \<le> dy" "err = dx - dy + D"
    using Suc.prems by (simp_all add: D_def)
  have kdx: "0 \<le> int k * dx" using par by simp
  have exp: "int (Suc k) * dx = int k * dx + dx" by (simp add: algebra_simps)
  from Suc.prems(1) have xy: "0 \<le> x" "x < 800" "0 \<le> y" "y < 600"
    by (simp_all add: in_matrix_def MATRIX_WIDTH_def MATRIX_HEIGHT_def)
  from par(6) have xy2: "0 \<le> x2" "x2 < 800" "0 \<le> y2" "y2 < 600"
    by (simp_all add: in_matrix_def MATRIX_WIDTH_def MATRIX_HEIGHT_def)
  have ty: "0 \<le> y + sy \<and> y + sy < 600 \<and> y2 = (y + sy) + sy * int k \<and> y \<noteq> y2 \<and>
         \<bar>y2 - y\<bar> = int k + 1 \<and> \<bar>(y + sy) - y\<bar> \<le> 1"
    using par(5) _ xy(3,4) xy2(3,4) by (rule toward_in_range) (use Suc.prems(3) in simp)
  have small: "\<bar>err\<bar> \<le> 4000" "\<bar>dx\<bar> \<le> 1000" "\<bar>dy\<bar> \<le> 1000" "\<bar>sx\<bar> \<le> 1" "\<bar>sy\<bar> \<le> 1"
    using D par by arith+
  have ystep: "2 * err < dx" using D par by arith
  have more: "x \<noteq> x2 \<or> y \<noteq> y2" using ty by blast
  note step = drawLine_loop_step [OF Suc.prems(1) more small, where acc = acc]
  show ?case
  proof (cases "2 * err > - dy")
    case True
    obtain j where j: "rx = Suc j"
    proof (cases rx)
      case 0
      then have "D = - (int k * dx) - dx" unfolding D_def exp by simp
      with D True kdx par have False by arith
      then show ?thesis ..
    next
      case (Suc j)
      then show ?thesis by (rule that)
    qed
    have expj: "int rx * dy = int j * dy + dy" using j by (simp add: algebra_simps)
    have tx: "0 \<le> x + sx \<and> x + sx < 800 \<and> x2 = (x + sx) + sx * int j \<and> x \<noteq> x2 \<and>
         \<bar>x2 - x\<bar> = int j + 1 \<and> \<bar>(x + sx) - x\<bar> \<le> 1"
      using par(4) _ xy(1,2) xy2(1,2) by (rule toward_in_range) (use Suc.prems(2) j in simp)
    have D': "int j * dy - int k * dx = D - dy + dx" unfolding D_def exp expj by simp
    have eq: "drawLine_loop dx dy sx sy x2 y2 x y err acc =
              drawLine_loop dx dy sx sy x2 y2 (x + sx) (y + sy) (err - dy + dx) (acc @ [(x, y)])"
      using step ystep True by simp
    have "\<exists>cells. drawLine_loop dx dy sx sy x2 y2 (x + sx) (y + sy) (err - dy + dx) (acc @ [(x, y)]) =
              Some ((acc @ [(x, y)]) @ cells) \<and>
            length cells = k + 1 \<and> hd cells = (x + sx, y + sy) \<and> last cells = (x2, y2) \<and>
            stepwise cells \<and> list_all in_matrix cells \<and>
            list_all (\<lambda>c. \<bar>y2 - snd c\<bar> \<le> int k) cells \<and> distinct cells"
    proof (rule Suc.IH [where rx = j])
      show "in_matrix (x + sx, y + sy)"
        using tx ty by (simp add: in_matrix_def MATRIX_WIDTH_def MATRIX_HEIGHT_def)
      show "x2 = x + sx + sx * int j" using tx by blast
      show "y2 = y + sy + sy * int k" using ty by blast
      show "err - dy + dx = dx - dy + (int j * dy - int k * dx)" unfolding D' using D by arith
      show "- dy < 2 * (int j * dy - int k * dx)" unfolding D' using D True by arith
      show "2 * (int j * dy - int k * dx) \<le> dy" unfolding D' using D par by arith
    qed
    then obtain cells where c: "drawLine_loop dx dy sx sy x2 y2 (x + sx) (y + sy) (err - dy + dx)
              (acc @ [(x, y)]) = Some ((acc @ [(x, y)]) @ cells)"
      "length cells = k + 1" "hd cells = (x + sx, y + sy)" "last cells = (x2, y2)"
      "stepwise cells" "list_all in_matrix cells"
      "list_all (\<lambda>c. \<bar>y2 - snd c\<bar> \<le> int k) cells" "distinct cells"
      by blast
    have ne: "cells \<noteq> []" using c(2) by auto
    have adj: "adjacent (x, y) (hd cells)"
      using c(3) tx ty par(4) by (auto simp: adjacent_def)
    have notin: "(x, y) \<notin> set cells"
      using c(7) ty by (auto simp: list_all_iff)
    have far: "list_all (\<lambda>c. \<bar>y2 - snd c\<bar> \<le> int (Suc k)) ((x, y) # cells)"
      using c(7) ty by (auto simp: list_all_iff)
    have "drawLine_loop dx dy sx sy x2 y2 x y err acc = Some (acc @ ((x, y) # cells))"
      using eq c(1) by simp
    moreover have "length ((x, y) # cells) = Suc k + 1" using c(2) by simp
    moreover have "last ((x, y) # cells) = (x2, y2)" using c(4) ne by simp
    moreover have "stepwise ((x, y) # cells)" using adj c(5) ne by (simp add: stepwise_Cons)
    moreover have "list_all in_matrix ((x, y) # cells)" using c(6) Suc.prems(1) by simp
    moreover have "distinct ((x, y) # cells)" using c(8) notin by simp
    ultimately show ?thesis using far by (intro exI [of _ "(x, y) # cells"]) simp
  next
    case False
    have D': "int rx * dy - int k * dx = D + dx" unfolding D_def exp by simp
    have eq: "drawLine_loop dx dy sx sy x2 y2 x y err acc =
              drawLine_loop dx dy sx sy x2 y2 x (y + sy) (err + dx) (acc @ [(x, y)])"
      using step ystep False by simp
    have "\<exists>cells. drawLine_loop dx dy sx sy x2 y2 x (y + sy) (err + dx) (acc @ [(x, y)]) =
              Some ((acc @ [(x, y)]) @ cells) \<and>
            length cells = k + 1 \<and> hd cells = (x, y + sy) \<and> last cells = (x2, y2) \<and>
            stepwise cells \<and> list_all in_matrix cells \<and>
            list_all (\<lambda>c. \<bar>y2 - snd c\<bar> \<le> int k) cells \<and> distinct cells"
    proof (rule Suc.IH [where rx = rx])
      show "in_matrix (x, y + sy)"
        using ty xy by (simp add: in_matrix_def MATRIX_WIDTH_def MATRIX_HEIGHT_def)
      show "x2 = x + sx * int rx" using Suc.prems(2) .
      show "y2 = y + sy + sy * int k" using ty by blast
      show "err + dx = dx - dy + (int rx * dy - int k * dx)" unfolding D' using D by arith
      show "- dy < 2 * (int rx * dy - int k * dx)" unfolding D' using D par by arith
      show "2 * (int rx * dy - int k * dx) \<le> dy" unfolding D' using D False by arith
    qed
    then obtain cells where c: "drawLine_loop dx dy sx sy x2 y2 x (y + sy) (err + dx)
              (acc @ [(x, y)]) = Some ((acc @ [(x, y)]) @ cells)"
      "length cells = k + 1" "hd cells = (x, y + sy)" "last cells = (x2, y2)"
      "stepwise cells" "list_all in_matrix cells"
      "list_all (\<lambda>c. \<bar>y2 - snd c\<bar> \<le> int k) cells" "distinct cells"
      by blast
    have ne: "cells \<noteq> []" using c(2) by auto
    have adj: "adjacent (x, y) (hd cells)"
      using c(3) ty par(5) by (auto simp: adjacent_def)
    have notin: "(x, y) \<notin> set cells"
      using c(7) ty by (auto simp: list_all_iff)
    have far: "list_all (\<lambda>c. \<bar>y2 - snd c\<bar> \<le> int (Suc k)) ((x, y) # cells)"
      using c(7) ty by (auto simp: list_all_iff)
    have "drawLine_loop dx dy sx sy x2 y2 x y err acc = Some (acc @ ((x, y) # cells))"
      using eq c(1) by simp
    moreover have "length ((x, y) # cells) = Suc k + 1" using c(2) by simp
    moreover have "last ((x, y) # cells) = (x2, y2)" using c(4) ne by simp
    moreover have "stepwise ((x, y) # cells)" using adj c(5) ne by (simp add: stepwise_Cons)
    moreover have "list_all in_matrix ((x, y) # cells)" using c(6) Suc.prems(1) by simp
    moreover have "distinct ((x, y) # cells)" using c(8) notin by simp
    ultimately show ?thesis using far by (intro exI [of _ "(x, y) # cells"]) simp
  qed
qed

lemma loop_diagonal:
  fixes d sx sy x2 y2 :: int
  assumes par: "0 < d" "d < 600" "\<bar>sx\<bar> = 1" "\<bar>sy\<bar> = 1" "in_matrix (x2, y2)"
  shows "in_matrix (x, y) \<Longrightarrow> x2 = x + sx * int n \<Longrightarrow> y2 = y + sy * int n \<Longrightarrow>
         \<exists>cells. drawLine_loop d d sx sy x2 y2 x y 0 acc = Some (acc @ cells) \<and>
            length cells = n + 1 \<and> hd cells = (x, y) \<and> last cells = (x2, y2) \<and>
            stepwise cells \<and> list_all in_matrix cells \<and>
            list_all (\<lambda>c. \<bar>x2 - fst c\<bar> \<le> int n) cells \<and> distinct cells"
proof (induction n arbitrary: x y acc)
  case 0
  then have "x = x2" "y = y2" by simp_all
  then show ?case using drawLine_loop_stop [OF par(5)] par(5) by simp
next
  case (Suc r)
  from Suc.prems(1) have xy: "0 \<le> x" "x < 800" "0 \<le> y" "y < 600"
    by (simp_all add: in_matrix_def MATRIX_WIDTH_def MATRIX_HEIGHT_def)
  from par(5) have xy2: "0 \<le> x2" "x2 < 800" "0 \<le> y2" "y2 < 600"
    by (simp_all add: in_matrix_def MATRIX_WIDTH_def MATRIX_HEIGHT_def)
  have tx: "0 \<le> x + sx \<and> x + sx < 800 \<and> x2 = (x + sx) + sx * int r \<and> x \<noteq> x2 \<and>
         \<bar>x2 - x\<bar> = int r + 1 \<and> \<bar>(x + sx) - x\<bar> \<le> 1"
    using par(3) _ xy(1,2) xy2(1,2) by (rule toward_in_range) (use Suc.prems(2) in simp)
  have ty: "0 \<le> y + sy \<and> y + sy < 600 \<and> y2 = (y + sy) + sy * int r \<and> y \<noteq> y2 \<and>
         \<bar>y2 - y\<bar> = int r + 1 \<and> \<bar>(y + sy) - y\<bar> \<le> 1"
    using par(4) _ xy(3,4) xy2(3,4) by (rule toward_in_range) (use Suc.prems(3) in simp)
  have small: "\<bar>0::int\<bar> \<le> 4000" "\<bar>d\<bar> \<le> 1000" "\<bar>d\<bar> \<le> 1000" "\<bar>sx\<bar> \<le> 1" "\<bar>sy\<bar> \<le> 1"
    using par by arith+
  have more: "x \<noteq> x2 \<or> y \<noteq> y2" using tx by blast
  have eq: "drawLine_loop d d sx sy x2 y2 x y 0 acc =
              drawLine_loop d d sx sy x2 y2 (x + sx) (y + sy) 0 (acc @ [(x, y)])"
    using drawLine_loop_step [OF Suc.prems(1) more small, where acc = acc] par(1) by simp
  have "\<exists>cells. drawLine_loop d d sx sy x2 y2 (x + sx) (y + sy) 0 (acc @ [(x, y)]) =
              Some ((acc @ [(x, y)]) @ cells) \<and>
            length cells = r + 1 \<and> hd cells = (x + sx, y + sy) \<and> last cells = (x2, y2) \<and>
            stepwise cells \<and> list_all in_matrix cells \<and>
            list_all (\<lambda>c. \<bar>x2 - fst c\<bar> \<le> int r) cells \<and> distinct cells"
  proof (rule Suc.IH)
    show "in_matrix (x + sx, y + sy)"
      using tx ty by (simp add: in_matrix_def MATRIX_WIDTH_def MATRIX_HEIGHT_def)
    show "x2 = x + sx + sx * int r" using tx by blast
    show "y2 = y + sy + sy * int r" using ty by blast
  qed
  then obtain cells where c: "drawLine_loop d d sx sy x2 y2 (x + sx) (y + sy) 0
              (acc @ [(x, y)]) = Some ((acc @ [(x, y)]) @ cells)"
      "length cells = r + 1" "hd cells = (x + sx, y + sy)" "last cells = (x2, y2)"
      "stepwise cells" "list_all in_matrix cells"
      "list_all (\<lambda>c. \<bar>x2 - fst c\<bar> \<le> int r) cells" "distinct cells"
    by blast
  have ne: "cells \<noteq> []" using c(2) by auto
  have adj: "adjacent (x, y) (hd cells)"
    using c(3) tx ty par(3) by (auto simp: adjacent_def)
  have notin: "(x, y) \<notin> set cells"
    using c(7) tx by (auto simp: list_all_iff)
  have far: "list_all (\<lambda>c. \<bar>x2 - fst c\<bar> \<le> int (Suc r)) ((x, y) # cells)"
    using c(7) tx by (auto simp: list_all_iff)
  have "drawLine_loop d d sx sy x2 y2 x y 0 acc = Some (acc @ ((x, y) # cells))"
    using eq c(1) by simp
  moreover have "length ((x, y) # cells) = Suc r + 1" using c(2) by simp
  moreover have "last ((x, y) # cells) = (x2, y2)" using c(4) ne by simp
  moreover have "stepwise ((x, y) # cells)" using adj c(5) ne by (simp add: stepwise_Cons)
  moreover have "list_all in_matrix ((x, y) # cells)" using c(6) Suc.prems(1) by simp
  moreover have "distinct ((x, y) # cells)" using c(8) notin by simp
  ultimately show ?case using far by (intro exI [of _ "(x, y) # cells"]) simp
qed

lemma sint_small: "uint w < 32768 \<Longrightarrow> sint w = uint w" for w :: u16
proof -
  assume "uint w < 32768"
  moreover have "- (2 ^ 15) \<le> uint w"
    by (rule order_trans [of _ 0]) simp_all
  ultimately have "signed_take_bit 15 (uint w) = uint w"
    by (intro signed_take_bit_int_eq_self) simp_all
  then show ?thesis by (simp add: sint_uint)
qed

lemma uint_less_of_unat: "unat w < n \<Longrightarrow> uint w < int n" for w :: u16
proof -
  assume "unat w < n"
  then have "int (unat w) < int n" by (simp only: of_nat_less_iff)
  then show ?thesis by simp
qed

lemma drawLine_cells_inside:
  assumes inside: "unat x1 < MATRIX_WIDTH" "unat x2 < MATRIX_WIDTH"
    "unat y1 < MATRIX_HEIGHT" "unat y2 < MATRIX_HEIGHT"
  shows "\<exists>cells. drawLine_cells x1 y1 x2 y2 = Some cells \<and>
           length cells = nat (max \<bar>uint x2 - uint x1\<bar> \<bar>uint y2 - uint y1\<bar>) + 1 \<and>
           hd cells = (uint x1, uint y1) \<and> last cells = (uint x2, uint y2) \<and>
           stepwise cells \<and> list_all in_matrix cells \<and> distinct cells"
proof -
  define X1 Y1 X2 Y2 where "X1 = uint x1" and "Y1 = uint y1" and "X2 = uint x2" and "Y2 = uint y2"
  have bnd: "0 \<le> X1" "X1 < 800" "0 \<le> X2" "X2 < 800" "0 \<le> Y1" "Y1 < 600" "0 \<le> Y2" "Y2 < 600"
    using inside [THEN uint_less_of_unat]
    by (simp_all add: X1_def X2_def Y1_def Y2_def MATRIX_WIDTH_def MATRIX_HEIGHT_def)
  have s: "sint x1 = X1" "sint x2 = X2" "sint y1 = Y1" "sint y2 = Y2"
    using bnd unfolding X1_def X2_def Y1_def Y2_def by (simp_all add: sint_small)
  define dx dy where "dx = \<bar>X2 - X1\<bar>" and "dy = \<bar>Y2 - Y1\<bar>"
  define sx sy :: int where "sx = (if x1 < x2 then 1 else - 1)" and "sy = (if y1 < y2 then 1 else - 1)"
  have d: "0 \<le> dx" "dx < 800" "0 \<le> dy" "dy < 600"
    using bnd by (simp_all add: dx_def dy_def)
  have sdx: "s16 \<bar>X2 - X1\<bar> = dx" unfolding dx_def using bnd by (intro s16_id) arith+
  have sdy: "s16 \<bar>Y2 - Y1\<bar> = dy" unfolding dy_def using bnd by (intro s16_id) arith+
  have serr: "s16 (dx - dy) = dx - dy" using d by (intro s16_id) arith+
  have "\<not> (MATRIX_WIDTH \<le> unat x1 \<or> MATRIX_WIDTH \<le> unat x2 \<or>
            MATRIX_HEIGHT \<le> unat y1 \<or> MATRIX_HEIGHT \<le> unat y2)"
    using inside by simp
  then have cells: "drawLine_cells x1 y1 x2 y2 = drawLine_loop dx dy sx sy X2 Y2 X1 Y1 (dx - dy) []"
    unfolding drawLine_cells_def
    by (simp add: Let_def s sdx sdy serr sx_def sy_def X2_def [symmetric] Y2_def [symmetric])
  have sgn: "\<bar>sx\<bar> = 1" "\<bar>sy\<bar> = 1" by (simp_all add: sx_def sy_def)
  have tox: "X2 = X1 + sx * int (nat dx)"
    by (simp add: sx_def dx_def word_less_def X1_def X2_def)
  have toy: "Y2 = Y1 + sy * int (nat dy)"
    by (simp add: sy_def dy_def word_less_def Y1_def Y2_def)
  have start: "in_matrix (X1, Y1)" and stop: "in_matrix (X2, Y2)"
    using bnd by (simp_all add: in_matrix_def MATRIX_WIDTH_def MATRIX_HEIGHT_def)
  have zero: "int (nat dx) * dy - int (nat dy) * dx = 0" using d by simp
  have e0: "dx - dy = dx - dy + (int (nat dx) * dy - int (nat dy) * dx)"
    unfolding zero by simp
  have "\<exists>cells. drawLine_loop dx dy sx sy X2 Y2 X1 Y1 (dx - dy) [] = Some cells \<and>
           length cells = nat (max dx dy) + 1 \<and> hd cells = (X1, Y1) \<and> last cells = (X2, Y2) \<and>
           stepwise cells \<and> list_all in_matrix cells \<and> distinct cells"
  proof -
    consider (xmajor) "dy < dx" | (ymajor) "dx < dy" | (diagonal) "dx = dy" "0 < dx"
      | (point) "dx = 0" "dy = 0"
      using d by linarith
    then show ?thesis
    proof cases
      case xmajor
      have lo: "- dx \<le> 2 * (int (nat dx) * dy - int (nat dy) * dx)"
        unfolding zero using d by simp
      have hi: "2 * (int (nat dx) * dy - int (nat dy) * dx) < dx"
        unfolding zero using d xmajor by simp
      have "\<exists>cells. drawLine_loop dx dy sx sy X2 Y2 X1 Y1 (dx - dy) [] = Some ([] @ cells) \<and>
            length cells = nat dx + 1 \<and> hd cells = (X1, Y1) \<and> last cells = (X2, Y2) \<and>
            stepwise cells \<and> list_all in_matrix cells \<and>
            list_all (\<lambda>c. \<bar>X2 - fst c\<bar> \<le> int (nat dx)) cells \<and> distinct cells"
        using d(3) xmajor d(2) sgn stop start tox toy e0 lo hi by (rule loop_xmajor)
      then obtain cells where
        "drawLine_loop dx dy sx sy X2 Y2 X1 Y1 (dx - dy) [] = Some cells"
        "length cells = nat dx + 1" "hd cells = (X1, Y1)" "last cells = (X2, Y2)"
        "stepwise cells" "list_all in_matrix cells" "distinct cells"
        by force
      moreover have "max dx dy = dx" using xmajor by simp
      ultimately show ?thesis by (intro exI [of _ cells]) simp
    next
      case ymajor
      have lo: "- dy < 2 * (int (nat dx) * dy - int (nat dy) * dx)"
        unfolding zero using d ymajor by simp
      have hi: "2 * (int (nat dx) * dy - int (nat dy) * dx) \<le> dy"
        unfolding zero using d by simp
      have "\<exists>cells. drawLine_loop dx dy sx sy X2 Y2 X1 Y1 (dx - dy) [] = Some ([] @ cells) \<and>
            length cells = nat dy + 1 \<and> hd cells = (X1, Y1) \<and> last cells = (X2, Y2) \<and>
            stepwise cells \<and> list_all in_matrix cells \<and>
            list_all (\<lambda>c. \<bar>Y2 - snd c\<bar> \<le> int (nat dy)) cells \<and> distinct cells"
        using d(1) ymajor d(4) sgn stop start tox toy e0 lo hi by (rule loop_ymajor)
      then obtain cells where
        "drawLine_loop dx dy sx sy X2 Y2 X1 Y1 (dx - dy) [] = Some cells"
        "length cells = nat dy + 1" "hd cells = (X1, Y1)" "last cells = (X2, Y2)"
        "stepwise cells" "list_all in_matrix cells" "distinct cells"
        by force
      moreover have "max dx dy = dy" using ymajor by simp
      ultimately show ?thesis by (intro exI [of _ cells]) simp
    next
      case diagonal
      have lt: "dx < 600" using diagonal d by simp
      have toy': "Y2 = Y1 + sy * int (nat dx)" using toy diagonal by simp
      have "\<exists>cells. drawLine_loop dx dx sx sy X2 Y2 X1 Y1 0 [] = Some ([] @ cells) \<and>
            length cells = nat dx + 1 \<and> hd cells = (X1, Y1) \<and> last cells = (X2, Y2) \<and>
            stepwise cells \<and> list_all in_matrix cells \<and>
            list_all (\<lambda>c. \<bar>X2 - fst c\<bar> \<le> int (nat dx)) cells \<and> distinct cells"
        using diagonal(2) lt sgn stop start tox toy' by (rule loop_diagonal)
      then obtain cells where
        "drawLine_loop dx dx sx sy X2 Y2 X1 Y1 0 [] = Some cells"
        "length cells = nat dx + 1" "hd cells = (X1, Y1)" "last cells = (X2, Y2)"
        "stepwise cells" "list_all in_matrix cells" "distinct cells"
        by force
      moreover have "max dx dy = dx" "dx - dy = 0" "dy = dx" using diagonal by simp_all
      ultimately show ?thesis by (intro exI [of _ cells]) simp
    next
      case point
      then have "X1 = X2" "Y1 = Y2" by (simp_all add: dx_def dy_def)
      then show ?thesis using drawLine_loop_stop [OF stop, of dx dy sx sy "dx - dy" "[]"] stop point
        by simp
    qed
  qed
  then show ?thesis
    by (simp add: cells dx_def dy_def X1_def X2_def Y1_def Y2_def)
qed

lemma write_cells_apply:
  "list_all in_matrix cells \<Longrightarrow>
   write_cells m cells v y x = (if (int x, int y) \<in> set cells then v else m y x)"
proof (induction cells arbitrary: m)
  case Nil
  show ?case by (simp add: write_cells_def)
next
  case (Cons c cells)
  obtain cx cy where c: "c = (cx, cy)" by (cases c)
  from Cons.prems c have nn: "0 \<le> cx" "0 \<le> cy" by (simp_all add: in_matrix_def)
  have here: "((int x, int y) = c) = (x = nat cx \<and> y = nat cy)"
    using nn unfolding c by auto
  have "write_cells m (c # cells) v y x = write_cells (put m (nat cx) (nat cy) v) cells v y x"
    by (simp add: write_cells_def c)
  also have "\<dots> = (if (int x, int y) \<in> set cells then v else put m (nat cx) (nat cy) v y x)"
    using Cons.prems by (intro Cons.IH) simp
  also have "\<dots> = (if (int x, int y) \<in> set (c # cells) then v else m y x)"
    using here by (auto simp: put_def)
  finally show ?case .
qed

text \<open>
  C4. When both endpoints lie inside \<open>[0, W) \<times> [0, H)\<close>, \<open>drawLine\<close> returns and writes
  \<open>max (|x2 - x1|, |y2 - y1|) + 1\<close> cells, from the first endpoint to the second, each
  one unit step in x, in y or in both away from the cell written before it; no cell is
  written twice. After the call the matrix holds the value at these cells and is as it
  was everywhere else.
\<close>

theorem drawLine_visits:
  assumes "unat x1 < MATRIX_WIDTH" and "unat x2 < MATRIX_WIDTH"
    and "unat y1 < MATRIX_HEIGHT" and "unat y2 < MATRIX_HEIGHT"
  shows "\<exists>cells m'. drawLine_cells x1 y1 x2 y2 = Some cells \<and>
           drawLine m x1 y1 x2 y2 v = Some m' \<and>
           (\<forall>x y. m' y x = (if (int x, int y) \<in> set cells then v else m y x)) \<and>
           length cells = nat (max \<bar>uint x2 - uint x1\<bar> \<bar>uint y2 - uint y1\<bar>) + 1 \<and>
           hd cells = (uint x1, uint y1) \<and> last cells = (uint x2, uint y2) \<and>
           stepwise cells \<and> distinct cells"
proof -
  from drawLine_cells_inside [OF assms] obtain cells where
    c: "drawLine_cells x1 y1 x2 y2 = Some cells"
      "length cells = nat (max \<bar>uint x2 - uint x1\<bar> \<bar>uint y2 - uint y1\<bar>) + 1"
      "hd cells = (uint x1, uint y1)" "last cells = (uint x2, uint y2)"
      "stepwise cells" "distinct cells" and inm: "list_all in_matrix cells"
    by blast
  from c(1) have d: "drawLine m x1 y1 x2 y2 v = Some (write_cells m cells v)"
    by (simp add: drawLine_def)
  have w: "\<forall>x y. write_cells m cells v y x = (if (int x, int y) \<in> set cells then v else m y x)"
    using inm by (simp add: write_cells_apply)
  from c d w show ?thesis by blast
qed

theorem drawLine_visits_witness:
  "unat (2 :: u16) < MATRIX_WIDTH \<and> unat (5 :: u16) < MATRIX_WIDTH \<and>
   unat (3 :: u16) < MATRIX_HEIGHT \<and> unat (1 :: u16) < MATRIX_HEIGHT \<and>
   (\<exists>cells m'. drawLine_cells 2 3 5 1 = Some cells \<and>
      drawLine (filled 0) 2 3 5 1 255 = Some m' \<and>
      (\<forall>x y. m' y x = (if (int x, int y) \<in> set cells then 255 else filled 0 y x)) \<and>
      length cells = 4 \<and> hd cells = (2, 3) \<and> last cells = (5, 1) \<and>
      stepwise cells \<and> distinct cells)"
  using drawLine_visits [of 2 5 3 1 "filled 0" 255]
  by (simp add: MATRIX_WIDTH_def MATRIX_HEIGHT_def)

lemma drawLine_cells_in_matrix:
  "drawLine_cells x1 y1 x2 y2 = Some cells \<Longrightarrow> list_all in_matrix cells"
proof (cases "unat x1 < MATRIX_WIDTH \<and> unat x2 < MATRIX_WIDTH \<and>
              unat y1 < MATRIX_HEIGHT \<and> unat y2 < MATRIX_HEIGHT")
  case True
  assume "drawLine_cells x1 y1 x2 y2 = Some cells"
  with drawLine_cells_inside [of x1 x2 y1 y2] True show ?thesis by auto
next
  case False
  assume "drawLine_cells x1 y1 x2 y2 = Some cells"
  with False have "cells = []" by (auto simp: drawLine_cells_def not_less)
  then show ?thesis by simp
qed

lemma drawLine_cells_outside:
  "unat x1 \<ge> MATRIX_WIDTH \<or> unat x2 \<ge> MATRIX_WIDTH \<or>
   unat y1 \<ge> MATRIX_HEIGHT \<or> unat y2 \<ge> MATRIX_HEIGHT \<Longrightarrow> drawLine_cells x1 y1 x2 y2 = Some []"
  by (simp add: drawLine_cells_def)

lemma write_cells_frame:
  "list_all in_matrix cells \<Longrightarrow> \<not> (x < MATRIX_WIDTH \<and> y < MATRIX_HEIGHT) \<Longrightarrow>
   write_cells m cells v y x = m y x"
proof (induction cells arbitrary: m)
  case Nil
  show ?case by (simp add: write_cells_def)
next
  case (Cons c cells)
  obtain cx cy where c: "c = (cx, cy)" by (cases c)
  from Cons.prems(1) c have "0 \<le> cx \<and> cx < int MATRIX_WIDTH \<and> 0 \<le> cy \<and> cy < int MATRIX_HEIGHT"
    by (simp add: in_matrix_def)
  then have inm: "nat cx < MATRIX_WIDTH" "nat cy < MATRIX_HEIGHT"
    by linarith+
  have "write_cells m (c # cells) v y x = write_cells (put m (nat cx) (nat cy) v) cells v y x"
    by (simp add: write_cells_def c)
  also have "\<dots> = put m (nat cx) (nat cy) v y x"
    using Cons.prems by (intro Cons.IH) simp_all
  also have "\<dots> = m y x"
    using inm Cons.prems(2) by (auto simp: put_def)
  finally show ?case .
qed

lemma drawLine_frame:
  "drawLine m x1 y1 x2 y2 v = Some m' \<Longrightarrow> \<not> (x < MATRIX_WIDTH \<and> y < MATRIX_HEIGHT) \<Longrightarrow>
   m' y x = m y x"
  by (auto simp: drawLine_def dest!: drawLine_cells_in_matrix intro: write_cells_frame)

lemma drawColumns_frame:
  "drawColumns p data startIndex ptf i prevY m = Inr m' \<Longrightarrow>
   \<not> (x < MATRIX_WIDTH \<and> y < MATRIX_HEIGHT) \<Longrightarrow> m' y x = m y x"
proof (induction p data startIndex ptf i prevY m rule: drawColumns.induct)
  case (1 p data startIndex ptf i prevY m)
  show ?case
  proof (cases "i < ptf \<and> startIndex + i * unat (samplesPerPixel p) < length data")
    case False
    with "1.prems"(1) have "m' = m"
      by (subst (asm) drawColumns.simps) (auto simp: Let_def not_less split: if_splits)
    then show ?thesis by simp
  next
    case True
    define si where "si = startIndex + i * unat (samplesPerPixel p)"
    from "1.prems"(1) True obtain sumv sampleCount avg currentY m1 where
      a: "avgLoop data si (unat (samplesPerPixel p)) 0 0 0 = Inr (sumv, sampleCount)"
      and b: "avgValue data si sumv sampleCount = Inr avg"
      and sc: "scaleAmplitude p avg = Inr currentY"
      and c: "drawLine m (word_of_nat (i - 1)) prevY (word_of_nat i) currentY 255 = Some m1"
      and d: "drawColumns p data startIndex ptf (i + 1) currentY m1 = Inr m'"
      by (subst (asm) drawColumns.simps)
        (auto simp: Let_def si_def split: if_splits sum.splits option.splits prod.splits)
    have "m' y x = m1 y x"
      using True a b sc c d "1.prems"(2)
      by (intro "1.IH" [of si "(sumv, sampleCount)" sumv sampleCount avg currentY m1])
        (simp_all add: si_def)
    also have "m1 y x = m y x"
      using c "1.prems"(2) by (rule drawLine_frame)
    finally show ?thesis .
  qed
qed

section \<open>Processor: reads and totality\<close>

lemma pixelsToFill_le_width: "pixelsToFill len start spp \<le> MATRIX_WIDTH"
  by (simp add: pixelsToFill_def Let_def)

lemma pixelsToFill_index:
  assumes "spp \<ge> 1" and "x < pixelsToFill len start spp"
  shows "start + x * spp < len"
proof -
  from assms(2) have "Suc x \<le> (len - start) div spp"
    by (simp add: pixelsToFill_def Let_def split: if_splits)
  then have "Suc x * spp \<le> ((len - start) div spp) * spp"
    by (rule mult_le_mono1)
  also have "\<dots> \<le> len - start" by simp
  finally have "x * spp + spp \<le> len - start" by simp
  with assms(1) show ?thesis by linarith
qed

lemma size_t_id: "n \<le> SIZE_MAX \<Longrightarrow> size_t n = n"
  by (simp add: size_t_def SIZE_MAX_def)

lemma avgLoop_result:
  "\<exists>s c. avgLoop data si spp i sumv cnt = Inr (s, c) \<and> cnt \<le> c \<and>
     (i < spp \<and> size_t (si + i) < length data \<longrightarrow> cnt < c)"
proof (induction data si spp i sumv cnt rule: avgLoop.induct)
  case (1 data si spp i sumv cnt)
  show ?case
  proof (cases "i < spp \<and> size_t (si + i) < length data")
    case False
    then show ?thesis by (subst avgLoop.simps) auto
  next
    case True
    define v where "v = data ! size_t (si + i)"
    from True have rd: "readSample data (size_t (si + i)) = Inr v"
      by (simp add: readSample_def v_def)
    from "1.IH" [OF True rd] obtain s c where
      r: "avgLoop data si spp (i + 1) (sumv + unat v) (cnt + 1) = Inr (s, c)" "cnt + 1 \<le> c"
      by blast
    from True rd r have "avgLoop data si spp i sumv cnt = Inr (s, c)"
      by (subst avgLoop.simps) simp
    with r(2) show ?thesis by simp
  qed
qed

lemma avgLoop_column:
  assumes "si < length data" and "length data \<le> SIZE_MAX" and "spp \<ge> 1"
  shows "\<exists>sumv cnt. avgLoop data si spp 0 0 0 = Inr (sumv, cnt) \<and> cnt \<ge> 1 \<and>
           avgValue data si sumv cnt = Inr (word_of_nat (sumv div cnt))"
proof -
  from assms(1,2) have "size_t (si + 0) = si" by (simp add: size_t_id)
  with assms(1,3) have first: "0 < spp \<and> size_t (si + 0) < length data" by simp
  from avgLoop_result [of data si spp 0 0 0] first obtain s c where
    "avgLoop data si spp 0 0 0 = Inr (s, c)" "0 < c"
    by blast
  then show ?thesis by (auto simp: avgValue_def)
qed

lemma scaleAmplitude_fault: "scaleAmplitude p v = Inl e \<Longrightarrow> e = UndefinedCast"
  by (auto simp: scaleAmplitude_def f32_to_u16_def Let_def split: sum.splits f32.splits if_splits)

lemma scaleAmplitude_scale:
  "amplitudeScale p' = amplitudeScale p \<Longrightarrow> scaleAmplitude p' v = scaleAmplitude p v"
  by (simp add: scaleAmplitude_def)

lemma unat_column: "x < MATRIX_WIDTH \<Longrightarrow> unat (word_of_nat x :: u16) = x"
  by (simp add: unat_of_nat MATRIX_WIDTH_def)

text \<open>
  The loop over the columns returns, with a matrix or with the undefined cast of
  \<open>scaleAmplitude\<close>; it does not read out of bounds and the rasterizer returns.
\<close>

lemma drawColumns_result:
  assumes spp: "unat (samplesPerPixel p) \<ge> 1" and len: "length data \<le> SIZE_MAX"
    and ptf: "ptf \<le> pixelsToFill (length data) startIndex (unat (samplesPerPixel p))"
  shows "n = ptf - i \<Longrightarrow> 1 \<le> i \<Longrightarrow> unat prevY < MATRIX_HEIGHT \<Longrightarrow>
         (\<exists>m'. drawColumns p data startIndex ptf i prevY m = Inr m') \<or>
         (drawColumns p data startIndex ptf i prevY m = Inl UndefinedCast \<and>
          (\<exists>w. scaleAmplitude p w = Inl UndefinedCast))"
proof (induction n arbitrary: i prevY m)
  case 0
  then have "\<not> i < ptf" by simp
  then show ?case by (subst drawColumns.simps) simp
next
  case (Suc n)
  then have lt: "i < ptf" by simp
  define si where "si = startIndex + i * unat (samplesPerPixel p)"
  from lt ptf have "i < pixelsToFill (length data) startIndex (unat (samplesPerPixel p))" by simp
  with spp have inb: "si < length data" unfolding si_def by (rule pixelsToFill_index)
  from avgLoop_column [OF inb len spp] obtain sumv cnt where
    a: "avgLoop data si (unat (samplesPerPixel p)) 0 0 0 = Inr (sumv, cnt)"
    and b: "avgValue data si sumv cnt = Inr (word_of_nat (sumv div cnt))"
    by blast
  show ?case
  proof (cases "scaleAmplitude p (word_of_nat (sumv div cnt))")
    case (Inl e)
    then have und: "scaleAmplitude p (word_of_nat (sumv div cnt)) = Inl UndefinedCast"
      using scaleAmplitude_fault by blast
    with lt inb a b have "drawColumns p data startIndex ptf i prevY m = Inl UndefinedCast"
      by (subst drawColumns.simps) (simp add: Let_def si_def)
    with und show ?thesis by blast
  next
    case (Inr currentY)
    then have cy: "unat currentY < MATRIX_HEIGHT" by (rule scaleAmplitude_range)
    from lt ptf pixelsToFill_le_width [of "length data" startIndex "unat (samplesPerPixel p)"]
    have iw: "i < MATRIX_WIDTH" "i - 1 < MATRIX_WIDTH" by simp_all
    have "\<exists>cells. drawLine_cells (word_of_nat (i - 1)) prevY (word_of_nat i) currentY = Some cells \<and>
             length cells = nat (max \<bar>uint (word_of_nat i :: u16) - uint (word_of_nat (i - 1) :: u16)\<bar>
               \<bar>uint currentY - uint prevY\<bar>) + 1 \<and>
             hd cells = (uint (word_of_nat (i - 1) :: u16), uint prevY) \<and>
             last cells = (uint (word_of_nat i :: u16), uint currentY) \<and>
             stepwise cells \<and> list_all in_matrix cells \<and> distinct cells"
      by (rule drawLine_cells_inside) (simp_all only: unat_column iw Suc.prems(3) cy)
    then obtain m1 where
      c: "drawLine m (word_of_nat (i - 1)) prevY (word_of_nat i) currentY 255 = Some m1"
      by (auto simp: drawLine_def)
    from lt inb a b Inr c have step: "drawColumns p data startIndex ptf i prevY m =
        drawColumns p data startIndex ptf (i + 1) currentY m1"
      by (subst drawColumns.simps) (simp add: Let_def si_def)
    from Suc.prems have "n = ptf - (i + 1)" "1 \<le> i + 1" by simp_all
    from Suc.IH [OF this cy, of m1] show ?thesis unfolding step .
  qed
qed

lemma processData_result:
  assumes "unat (samplesPerPixel p) \<ge> 1"
    and "\<forall>data. inputData = Some data \<longrightarrow> length data \<le> SIZE_MAX"
  shows "(\<exists>b p' om. processData p inputData outputMatrix = Inr (b, p', om)) \<or>
         (processData p inputData outputMatrix = Inl UndefinedCast \<and>
          (\<exists>w. scaleAmplitude p w = Inl UndefinedCast))"
proof (cases "inputData = None \<or> inputData = Some [] \<or> outputMatrix = None \<or> \<not> initialized p")
  case True
  then show ?thesis using processData_invalid by blast
next
  case False
  then obtain data m where v: "inputData = Some data" "data \<noteq> []" "outputMatrix = Some m"
    "initialized p"
    by auto
  from assms(2) v have len: "length data \<le> SIZE_MAX" by simp
  define startIndex p2 where "startIndex = fst (locateStart p data)" and "p2 = snd (locateStart p data)"
  have spp2: "samplesPerPixel p2 = samplesPerPixel p" by (simp add: p2_def locateStart_config)
  have sc2: "scaleAmplitude p2 w = scaleAmplitude p w" for w
    by (rule scaleAmplitude_scale) (simp add: p2_def locateStart_config)
  define ptf where "ptf = pixelsToFill (length data) startIndex (unat (samplesPerPixel p))"
  show ?thesis
  proof (cases "ptf = 0")
    case True
    with v assms(1) have "processData p (Some data) (Some m) =
           Inr (False, snd (locateStart p data), Some (clearMatrix m))"
      by (intro processData_insufficient) (simp_all add: ptf_def startIndex_def)
    with v show ?thesis by blast
  next
    case nz: False
    then have "0 < pixelsToFill (length data) startIndex (unat (samplesPerPixel p))"
      by (simp add: ptf_def)
    with assms(1) have "startIndex + 0 * unat (samplesPerPixel p) < length data"
      by (rule pixelsToFill_index)
    then have rd: "readSample data startIndex = Inr (data ! startIndex)"
      by (simp add: readSample_def)
    show ?thesis
    proof (cases "scaleAmplitude p2 (data ! startIndex)")
      case (Inl e)
      then have und: "scaleAmplitude p2 (data ! startIndex) = Inl UndefinedCast"
        using scaleAmplitude_fault by blast
      with v assms(1) nz rd have "processData p inputData outputMatrix = Inl UndefinedCast"
        by (simp add: processData_def Let_def split_beta spp2 ptf_def
            startIndex_def [symmetric] p2_def [symmetric])
      with und show ?thesis unfolding sc2 by blast
    next
      case (Inr prevY)
      then have py: "unat prevY < MATRIX_HEIGHT" by (rule scaleAmplitude_range)
      have "(\<exists>m'. drawColumns p2 data startIndex ptf 1 prevY (clearMatrix m) = Inr m') \<or>
         (drawColumns p2 data startIndex ptf 1 prevY (clearMatrix m) = Inl UndefinedCast \<and>
          (\<exists>w. scaleAmplitude p2 w = Inl UndefinedCast))"
        using _ len _ refl _ py
        by (rule drawColumns_result) (use assms(1) in \<open>simp_all add: spp2 ptf_def\<close>)
      then show ?thesis
      proof
        assume "\<exists>m'. drawColumns p2 data startIndex ptf 1 prevY (clearMatrix m) = Inr m'"
        then obtain m' where
          "drawColumns p2 data startIndex ptf 1 prevY (clearMatrix m) = Inr m'" ..
        with v assms(1) nz rd Inr
        have "processData p inputData outputMatrix = Inr (True, p2, Some m')"
          by (simp add: processData_def Let_def split_beta spp2 ptf_def
              startIndex_def [symmetric] p2_def [symmetric])
        then show ?thesis by blast
      next
        assume u: "drawColumns p2 data startIndex ptf 1 prevY (clearMatrix m) = Inl UndefinedCast \<and>
          (\<exists>w. scaleAmplitude p2 w = Inl UndefinedCast)"
        with v assms(1) nz rd Inr
        have "processData p inputData outputMatrix = Inl UndefinedCast"
          by (simp add: processData_def Let_def split_beta spp2 ptf_def
              startIndex_def [symmetric] p2_def [symmetric])
        with u show ?thesis unfolding sc2 by blast
      qed
    qed
  qed
qed

text \<open>With a finite scale above 0 the cast is defined and \<open>processData\<close> returns.\<close>

lemma processData_total:
  assumes "unat (samplesPerPixel p) \<ge> 1"
    and "\<forall>data. inputData = Some data \<longrightarrow> length data \<le> SIZE_MAX"
    and "amplitudeScale p = Finite s" and "0 < s"
  shows "\<exists>b p' om. processData p inputData outputMatrix = Inr (b, p', om)"
proof -
  have "scaleAmplitude p w \<noteq> Inl UndefinedCast" for w
  proof -
    from scaleAmplitude_finite(10) [OF assms(3,4), of w]
    obtain y where "scaleAmplitude p w = Inr y" by blast
    then show ?thesis by simp
  qed
  then have "\<not> (\<exists>w. scaleAmplitude p w = Inl UndefinedCast)" by blast
  with processData_result [OF assms(1,2), of outputMatrix] show ?thesis by blast
qed

lemma processData_frame:
  assumes "processData p inputData (Some m) = Inr (b, p', om)"
  shows "\<exists>m'. om = Some m' \<and> (\<forall>y x. \<not> (x < MATRIX_WIDTH \<and> y < MATRIX_HEIGHT) \<longrightarrow> m' y x = m y x)"
proof (cases "inputData = None \<or> inputData = Some [] \<or> \<not> initialized p")
  case True
  then have "processData p inputData (Some m) = Inr (False, p, Some m)"
    by (intro processData_invalid) auto
  with assms show ?thesis by auto
next
  case False
  then obtain data where v: "inputData = Some data" "data \<noteq> []" "initialized p" by auto
  define startIndex p2 where "startIndex = fst (locateStart p data)" and "p2 = snd (locateStart p data)"
  from assms v have "om = Some (clearMatrix m) \<or>
     (\<exists>ptf prevY m'. drawColumns p2 data startIndex ptf 1 prevY (clearMatrix m) = Inr m' \<and> om = Some m')"
    by (auto simp: processData_def Let_def split_beta startIndex_def p2_def
        split: if_splits sum.splits)
  then show ?thesis
  proof
    assume "om = Some (clearMatrix m)"
    then show ?thesis by (simp add: clearMatrix_apply)
  next
    assume "\<exists>ptf prevY m'. drawColumns p2 data startIndex ptf 1 prevY (clearMatrix m) = Inr m' \<and> om = Some m'"
    then obtain ptf prevY m' where
      d: "drawColumns p2 data startIndex ptf 1 prevY (clearMatrix m) = Inr m'" and om: "om = Some m'"
      by blast
    have "m' y x = m y x" if out: "\<not> (x < MATRIX_WIDTH \<and> y < MATRIX_HEIGHT)" for y x
    proof -
      have "m' y x = clearMatrix m y x" using d out by (rule drawColumns_frame)
      also have "\<dots> = m y x" using out by (auto simp: clearMatrix_apply)
      finally show ?thesis .
    qed
    with om show ?thesis by blast
  qed
qed

text \<open>
  C7. When an endpoint lies outside \<open>[0, W) \<times> [0, H)\<close>, \<open>drawLine\<close> writes no cell at
  all and the matrix stays as it was. Every cell that \<open>drawLine\<close> writes lies inside the
  matrix, and a processing call changes no cell outside \<open>[0, W) \<times> [0, H)\<close>.
\<close>

theorem drawLine_skips_outside:
  "(unat x1 \<ge> MATRIX_WIDTH \<or> unat x2 \<ge> MATRIX_WIDTH \<or>
    unat y1 \<ge> MATRIX_HEIGHT \<or> unat y2 \<ge> MATRIX_HEIGHT \<longrightarrow>
      drawLine_cells x1 y1 x2 y2 = Some [] \<and> drawLine m x1 y1 x2 y2 v = Some m) \<and>
   (drawLine_cells x1 y1 x2 y2 = Some cells \<longrightarrow> list_all in_matrix cells) \<and>
   (processData p inputData (Some m) = Inr (b, p', om) \<longrightarrow>
      (\<exists>m'. om = Some m' \<and>
         (\<forall>y x. \<not> (x < MATRIX_WIDTH \<and> y < MATRIX_HEIGHT) \<longrightarrow> m' y x = m y x)))"
proof (intro conjI impI)
  assume out: "unat x1 \<ge> MATRIX_WIDTH \<or> unat x2 \<ge> MATRIX_WIDTH \<or>
    unat y1 \<ge> MATRIX_HEIGHT \<or> unat y2 \<ge> MATRIX_HEIGHT"
  then show "drawLine_cells x1 y1 x2 y2 = Some []" by (rule drawLine_cells_outside)
  then show "drawLine m x1 y1 x2 y2 v = Some m" by (simp add: drawLine_def write_cells_def)
next
  assume "drawLine_cells x1 y1 x2 y2 = Some cells"
  then show "list_all in_matrix cells" by (rule drawLine_cells_in_matrix)
next
  assume "processData p inputData (Some m) = Inr (b, p', om)"
  then show "\<exists>m'. om = Some m' \<and>
         (\<forall>y x. \<not> (x < MATRIX_WIDTH \<and> y < MATRIX_HEIGHT) \<longrightarrow> m' y x = m y x)"
    by (rule processData_frame)
qed

lemma drawLine_cells_example: "drawLine_cells 2 3 5 1 = Some [(2, 3), (3, 2), (4, 2), (5, 1)]"
  by code_simp

theorem drawLine_skips_outside_witness:
  "unat (800 :: u16) \<ge> MATRIX_WIDTH \<and>
   drawLine_cells 800 3 5 1 = Some [] \<and> drawLine (filled 7) 800 3 5 1 255 = Some (filled 7) \<and>
   drawLine_cells 2 3 5 1 = Some [(2, 3), (3, 2), (4, 2), (5, 1)] \<and>
   list_all in_matrix [(2, 3), (3, 2), (4, 2), (5, 1)] \<and>
   (\<exists>p' m'. processData (pds_begin Pds_ctor) (Some [10, 200]) (Some (filled 7)) =
        Inr (True, p', Some m') \<and>
      (\<forall>y x. \<not> (x < MATRIX_WIDTH \<and> y < MATRIX_HEIGHT) \<longrightarrow> m' y x = filled 7 y x))"
proof -
  have big: "unat (800 :: u16) \<ge> MATRIX_WIDTH" by (simp add: MATRIX_WIDTH_def)
  have "unat (samplesPerPixel (pds_begin Pds_ctor)) \<ge> 1"
    by (simp add: pds_begin_def Pds_ctor_def)
  moreover have "\<forall>data. Some [10, 200 :: u8] = Some data \<longrightarrow> length data \<le> SIZE_MAX"
    by (simp add: SIZE_MAX_def)
  moreover have "amplitudeScale (pds_begin Pds_ctor) = Finite 1" "(0::real) < 1"
    by (simp_all add: pds_begin_def Pds_ctor_def)
  ultimately obtain b p' om where
    r: "processData (pds_begin Pds_ctor) (Some [10, 200]) (Some (filled 7)) = Inr (b, p', om)"
    using processData_total by blast
  then have b: "b"
    by (auto simp: processData_def Let_def split_beta pds_begin_def Pds_ctor_def locateStart_def
        pixelsToFill_def MATRIX_WIDTH_def split: if_splits sum.splits)
  from drawLine_skips_outside [of 800 5 3 1 "filled 7" 255 "[]" "pds_begin Pds_ctor"
      "Some [10, 200]" b p' om] big r
  have one: "drawLine_cells 800 3 5 1 = Some [] \<and> drawLine (filled 7) 800 3 5 1 255 = Some (filled 7)"
    and three: "\<exists>m'. om = Some m' \<and>
         (\<forall>y x. \<not> (x < MATRIX_WIDTH \<and> y < MATRIX_HEIGHT) \<longrightarrow> m' y x = filled 7 y x)"
    by blast+
  from drawLine_skips_outside [of 2 5 3 1 "filled 7" 255 "[(2, 3), (3, 2), (4, 2), (5, 1)]"
      "pds_begin Pds_ctor" "Some [10, 200]" b p' om] drawLine_cells_example
  have two: "list_all in_matrix [(2, 3), (3, 2), (4, 2), (5, 1)]" by blast
  from three r b have "\<exists>p' m'. processData (pds_begin Pds_ctor) (Some [10, 200]) (Some (filled 7)) =
        Inr (True, p', Some m') \<and>
      (\<forall>y x. \<not> (x < MATRIX_WIDTH \<and> y < MATRIX_HEIGHT) \<longrightarrow> m' y x = filled 7 y x)"
    by auto
  with big one two drawLine_cells_example show ?thesis by blast
qed

text \<open>
  C10. In the drawing loop of \<open>processData\<close> every read of the input buffer is in
  bounds. For every column \<open>x\<close> in \<open>[1, pixelsToFill)\<close> the index
  \<open>start + x * samplesPerPixel\<close> is below the input length; the averaging run reads only
  indices below the input length and holds at least one sample, so the average is taken
  and the single-sample fallback is not; and no call ends in a read out of bounds.
\<close>

theorem processData_reads_in_bounds:
  assumes "unat (samplesPerPixel p) \<ge> 1" and "length data \<le> SIZE_MAX"
  shows "(1 \<le> x \<and> x < pixelsToFill (length data) startIndex (unat (samplesPerPixel p)) \<longrightarrow>
            startIndex + x * unat (samplesPerPixel p) < length data \<and>
            (\<exists>sumv cnt.
               avgLoop data (startIndex + x * unat (samplesPerPixel p))
                 (unat (samplesPerPixel p)) 0 0 0 = Inr (sumv, cnt) \<and>
               cnt \<ge> 1 \<and>
               avgValue data (startIndex + x * unat (samplesPerPixel p)) sumv cnt =
                 Inr (word_of_nat (sumv div cnt)))) \<and>
         processData p (Some data) outputMatrix \<noteq> Inl OutOfBounds"
proof (intro conjI impI)
  assume "1 \<le> x \<and> x < pixelsToFill (length data) startIndex (unat (samplesPerPixel p))"
  then have "x < pixelsToFill (length data) startIndex (unat (samplesPerPixel p))" ..
  with assms(1) show inb: "startIndex + x * unat (samplesPerPixel p) < length data"
    by (rule pixelsToFill_index)
  from inb assms(2,1) show "\<exists>sumv cnt.
               avgLoop data (startIndex + x * unat (samplesPerPixel p))
                 (unat (samplesPerPixel p)) 0 0 0 = Inr (sumv, cnt) \<and>
               cnt \<ge> 1 \<and>
               avgValue data (startIndex + x * unat (samplesPerPixel p)) sumv cnt =
                 Inr (word_of_nat (sumv div cnt))"
    by (rule avgLoop_column)
next
  from assms have "(\<exists>b p' om. processData p (Some data) outputMatrix = Inr (b, p', om)) \<or>
         (processData p (Some data) outputMatrix = Inl UndefinedCast \<and>
          (\<exists>w. scaleAmplitude p w = Inl UndefinedCast))"
    by (intro processData_result) simp_all
  then show "processData p (Some data) outputMatrix \<noteq> Inl OutOfBounds" by auto
qed

theorem processData_reads_in_bounds_witness:
  "unat (samplesPerPixel (setTimeScale (pds_begin Pds_ctor) 2)) \<ge> 1 \<and>
   length [1, 2, 3, 4, 5, 6, 7 :: u8] \<le> SIZE_MAX \<and>
   (1::nat) \<le> 2 \<and> 2 < pixelsToFill (length [1, 2, 3, 4, 5, 6, 7 :: u8]) 0 2 \<and>
   0 + 2 * 2 < length [1, 2, 3, 4, 5, 6, 7 :: u8] \<and>
   (\<exists>sumv cnt. avgLoop [1, 2, 3, 4, 5, 6, 7] (0 + 2 * 2) 2 0 0 0 = Inr (sumv, cnt) \<and> cnt \<ge> 1 \<and>
      avgValue [1, 2, 3, 4, 5, 6, 7] (0 + 2 * 2) sumv cnt = Inr (word_of_nat (sumv div cnt))) \<and>
   processData (setTimeScale (pds_begin Pds_ctor) 2) (Some [1, 2, 3, 4, 5, 6, 7]) (Some (filled 0))
     \<noteq> Inl OutOfBounds"
proof -
  have spp: "samplesPerPixel (setTimeScale (pds_begin Pds_ctor) 2) = 2"
    by (simp add: setTimeScale_def pds_begin_def Pds_ctor_def)
  have len7: "length [1, 2, 3, 4, 5, 6, 7 :: u8] = 7" by simp
  have ptf: "pixelsToFill 7 0 2 = 3"
    by (simp add: pixelsToFill_def MATRIX_WIDTH_def)
  have two: "unat (2 :: u16) = 2" by simp
  note inst = processData_reads_in_bounds [of "setTimeScale (pds_begin Pds_ctor) 2"
        "[1, 2, 3, 4, 5, 6, 7]" 2 0 "Some (filled 0)", unfolded spp two len7 ptf]
  show ?thesis
    unfolding spp two len7 ptf using inst by (simp add: SIZE_MAX_def)
qed

end
